theory Spec2Isabelle
  imports Complex_Main
begin

section \<open>Data model of script.js\<close>

text \<open>
  The source file holds two versions of the script. The model follows the second, later
  one, which adds the user-controlled snake; with the checkbox unchecked it moves the
  snakes as the first version does.

  \<^verbatim>\<open>Math.random()\<close> is an input of the model: a sequence of rationals, read one
  after the other. Coordinates are whole numbers throughout, as every cell is made by
  \<^verbatim>\<open>Math.floor\<close> or by adding a direction to a cell.
\<close>

text \<open>
  A grid cell and a movement direction are both JavaScript objects \<^verbatim>\<open>{x, y}\<close> with
  integer coordinates; they are modelled as pairs \<open>(x, y)\<close>.
\<close>

type_synonym cell = "int \<times> int"

text \<open>The class \<^verbatim>\<open>Snake\<close>. The field \<^verbatim>\<open>id\<close> is called \<open>snake_id\<close> here.\<close>

record snake =
  snake_id :: nat
  color :: string
  body :: "cell list"
  direction :: cell
  userControlled :: bool

text \<open>
  The two ways in which a handler fails to return: a \<^verbatim>\<open>TypeError\<close> is thrown when a
  coordinate of \<^verbatim>\<open>snake.body[0]\<close> is read on an empty body, and a rejection-sampling
  loop may run forever.
\<close>

datatype failure = TypeError | Hang

text \<open>
  The global variables of the script, together with the parts of the page they read.
  \<^item> \<open>gridWidth\<close>, \<open>gridHeight\<close>: \<^verbatim>\<open>canvas.width / cellSize\<close> and
    \<^verbatim>\<open>canvas.height / cellSize\<close>. The canvas is declared in the page, not in the
    script, so both are parameters; they need not be whole numbers.
  \<^item> \<open>userControlCheck\<close>: the \<^verbatim>\<open>checked\<close> property of the checkbox.
  \<^item> \<open>timerActive\<close>: whether the interval stored in \<^verbatim>\<open>gameInterval\<close> is still
    scheduled; \<^verbatim>\<open>clearInterval\<close> resets it.
  \<^item> \<open>rnd\<close>, \<open>drawn\<close>: \<^verbatim>\<open>Math.random()\<close> returns \<open>rnd drawn\<close> and increments
    \<open>drawn\<close>. The sequence \<open>rnd\<close> is never changed.
\<close>

record state =
  gridWidth :: rat
  gridHeight :: rat
  snakes :: "snake list"
  food :: cell
  foodColor :: string
  userSnakeId :: "nat option"
  userBlockedCounter :: nat
  userControlCheck :: bool
  timerActive :: bool
  rnd :: "nat \<Rightarrow> rat"
  drawn :: nat

definition USER_BLOCKED_THRESHOLD :: nat where
  "USER_BLOCKED_THRESHOLD = 3"

section \<open>Helper functions\<close>

text \<open>
  \<^verbatim>\<open>isCellOccupied(x, y, ignoreTailSnake)\<close>. Snake objects are compared by identity;
  a snake is identified by its position in the array \<^verbatim>\<open>snakes\<close>, and
  \<^verbatim>\<open>null\<close> is \<open>None\<close>.
\<close>

definition isCellOccupied :: "snake list \<Rightarrow> int \<Rightarrow> int \<Rightarrow> nat option \<Rightarrow> bool" where
  "isCellOccupied ss nx ny ignoreTailSnake =
     list_ex (\<lambda>i.
       let b = body (ss ! i) in
       list_ex (\<lambda>j.
           \<not> (ignoreTailSnake = Some i \<and> int j = int (length b) - 1)
           \<and> b ! j = (nx, ny))
         [0..<length b])
       [0..<length ss]"

text \<open>
  The nested loop of \<^verbatim>\<open>generateFood\<close> (and of the placement loop in
  \<^verbatim>\<open>createSnakes\<close>): does any segment of any snake lie on the cell?
\<close>

definition cellTaken :: "snake list \<Rightarrow> int \<Rightarrow> int \<Rightarrow> bool" where
  "cellTaken ss nx ny = list_ex (\<lambda>sn. list_ex (\<lambda>seg. seg = (nx, ny)) (body sn)) ss"

text \<open>
  \<^verbatim>\<open>generateFood()\<close>: sample cells until one is free. The loop need not end; the
  value \<open>None\<close> stands for a run that never leaves the loop.
\<close>

partial_function (option) generateFood :: "state \<Rightarrow> state option" where
  "generateFood s =
     (let nx = \<lfloor>rnd s (drawn s) * gridWidth s\<rfloor>;
          ny = \<lfloor>rnd s (drawn s + 1) * gridHeight s\<rfloor>;
          s1 = s\<lparr>drawn := drawn s + 2\<rparr>
      in if cellTaken (snakes s) nx ny then generateFood s1
         else Some (s1\<lparr>food := (nx, ny)\<rparr>))"

declare generateFood.simps [code]

definition generateFood_result :: "state \<Rightarrow> failure + state" where
  "generateFood_result s = (case generateFood s of None \<Rightarrow> Inl Hang | Some s' \<Rightarrow> Inr s')"

section \<open>The move planner\<close>

definition allDirections :: "cell list" where
  "allDirections = [(1, 0), (- 1, 0), (0, 1), (0, - 1)]"

text \<open>The candidate list of \<^verbatim>\<open>getNextDirection\<close> after the reversal filter.\<close>

definition possibleDirections :: "snake \<Rightarrow> cell list" where
  "possibleDirections sn =
     (if length (body sn) > 1
      then filter (\<lambda>dir. \<not> (fst dir = - fst (direction sn) \<and> snd dir = - snd (direction sn)))
             allDirections
      else allDirections)"

definition outOfBounds :: "state \<Rightarrow> int \<Rightarrow> int \<Rightarrow> bool" where
  "outOfBounds s nx ny \<longleftrightarrow>
     nx < 0 \<or> of_int nx \<ge> gridWidth s \<or> ny < 0 \<or> of_int ny \<ge> gridHeight s"

text \<open>The loop that collects \<^verbatim>\<open>safeDirections\<close> for snake number \<open>i\<close> with head \<open>h\<close>.\<close>

definition safeDirections :: "state \<Rightarrow> nat \<Rightarrow> cell \<Rightarrow> cell list" where
  "safeDirections s i h =
     filter (\<lambda>dir.
         let nx = fst h + fst dir; ny = snd h + snd dir in
         \<not> outOfBounds s nx ny \<and> \<not> isCellOccupied (snakes s) nx ny (Some i))
       (possibleDirections (snakes s ! i))"

text \<open>The sort key: Manhattan distance from the prospective head to the food.\<close>

definition foodDistance :: "state \<Rightarrow> cell \<Rightarrow> cell \<Rightarrow> int" where
  "foodDistance s h dir =
     \<bar>fst h + fst dir - fst (food s)\<bar> + \<bar>snd h + snd dir - snd (food s)\<bar>"

text \<open>
  \<^verbatim>\<open>getNextDirection(snake)\<close> for the snake at index \<open>i\<close>. \<^verbatim>\<open>Array.prototype.sort\<close>
  is stable, as is \<^const>\<open>sort_key\<close>. With an empty body \<^verbatim>\<open>head\<close> is
  \<^verbatim>\<open>undefined\<close> and the first \<^verbatim>\<open>head.x\<close> throws.
\<close>

definition getNextDirection :: "state \<Rightarrow> nat \<Rightarrow> failure + cell option" where
  "getNextDirection s i =
     (case body (snakes s ! i) of
        [] \<Rightarrow> Inl TypeError
      | h # _ \<Rightarrow>
          let safe = safeDirections s i h in
          if length safe > 0
          then Inr (Some (hd (sort_key (foodDistance s h) safe)))
          else Inr None)"

section \<open>The game loop\<close>

text \<open>
  The block that commits a move of snake \<open>i\<close> to \<open>newHead\<close>; it occurs twice in
  \<^verbatim>\<open>gameLoop\<close>, once for the user-controlled and once for the AI-controlled
  snake: \<^verbatim>\<open>unshift\<close> only and a new food when the head lands on the food,
  \<^verbatim>\<open>unshift\<close> followed by \<^verbatim>\<open>pop\<close> otherwise.
\<close>

definition commitMove :: "nat \<Rightarrow> cell \<Rightarrow> state \<Rightarrow> failure + state" where
  "commitMove i newHead s =
     (let sn = snakes s ! i in
      if fst newHead = fst (food s) \<and> snd newHead = snd (food s)
      then generateFood_result (s\<lparr>snakes := (snakes s)[i := sn\<lparr>body := newHead # body sn\<rparr>]\<rparr>)
      else Inr (s\<lparr>snakes := (snakes s)[i := sn\<lparr>body := butlast (newHead # body sn)\<rparr>]\<rparr>))"

text \<open>
  One iteration of \<^verbatim>\<open>for (let snake of snakes)\<close>, for the snake at index \<open>i\<close>. The
  local variable \<^verbatim>\<open>anyMoved\<close> is carried beside the state.
\<close>

definition moveSnake :: "nat \<Rightarrow> state \<times> bool \<Rightarrow> failure + state \<times> bool" where
  "moveSnake i sa =
     (let s = fst sa; anyMoved = snd sa; sn = snakes s ! i in
      case body sn of
        [] \<Rightarrow> Inl TypeError
      | h # _ \<Rightarrow>
          if userControlled sn
          then
            let intendedDir = direction sn;
                newHead = (fst h + fst intendedDir, snd h + snd intendedDir)
            in if outOfBounds s (fst newHead) (snd newHead)
                  \<or> isCellOccupied (snakes s) (fst newHead) (snd newHead) (Some i)
               then Inr (s, anyMoved)
               else (case commitMove i newHead s of
                       Inl e \<Rightarrow> Inl e
                     | Inr s' \<Rightarrow> Inr (s', True))
          else
            (case getNextDirection s i of
               Inl e \<Rightarrow> Inl e
             | Inr None \<Rightarrow> Inr (s, anyMoved)
             | Inr (Some nextDir) \<Rightarrow>
                 let newHead = (fst h + fst nextDir, snd h + snd nextDir) in
                 (case commitMove i newHead s of
                    Inl e \<Rightarrow> Inl e
                  | Inr s' \<Rightarrow>
                      Inr (s'\<lparr>snakes := (snakes s')[i := (snakes s' ! i)\<lparr>direction := nextDir\<rparr>]\<rparr>,
                           True))))"

fun movesLoop :: "nat list \<Rightarrow> state \<times> bool \<Rightarrow> failure + state \<times> bool" where
  "movesLoop [] sa = Inr sa"
| "movesLoop (i # is) sa =
     (case moveSnake i sa of Inl e \<Rightarrow> Inl e | Inr sa' \<Rightarrow> movesLoop is sa')"

text \<open>\<^verbatim>\<open>snakes.find(...)\<close>, returning the position of the snake found.\<close>

primrec findIndex :: "('a \<Rightarrow> bool) \<Rightarrow> 'a list \<Rightarrow> nat option" where
  "findIndex P [] = None"
| "findIndex P (a # as) = (if P a then Some 0 else map_option Suc (findIndex P as))"

text \<open>The \<^verbatim>\<open>safeMoves\<close> of the user-controlled snake \<open>u\<close> with head \<open>h\<close>.\<close>

definition safeMoves :: "state \<Rightarrow> nat \<Rightarrow> cell \<Rightarrow> cell list" where
  "safeMoves s u h =
     filter (\<lambda>dir.
         let nx = fst h + fst dir; ny = snd h + snd dir in
         nx \<ge> 0 \<and> of_int nx < gridWidth s \<and> ny \<ge> 0 \<and> of_int ny < gridHeight s
         \<and> \<not> isCellOccupied (snakes s) nx ny (Some u))
       allDirections"

text \<open>The game-over condition at the end of \<^verbatim>\<open>gameLoop\<close>; drawing changes nothing.\<close>

definition gameOverCheck :: "state \<times> bool \<Rightarrow> failure + state" where
  "gameOverCheck sa =
     (let s = fst sa; anyMoved = snd sa in
      if userControlCheck s
      then
        (case findIndex userControlled (snakes s) of
           None \<Rightarrow> Inr s
         | Some u \<Rightarrow>
             (case body (snakes s ! u) of
                [] \<Rightarrow> Inl TypeError
              | h # _ \<Rightarrow>
                  if length (safeMoves s u h) = 0
                  then
                    let s1 = s\<lparr>userBlockedCounter := userBlockedCounter s + 1\<rparr> in
                    if userBlockedCounter s1 \<ge> USER_BLOCKED_THRESHOLD
                    then Inr (s1\<lparr>timerActive := False\<rparr>)
                    else Inr s1
                  else Inr (s\<lparr>userBlockedCounter := 0\<rparr>)))
      else
        if \<not> anyMoved then Inr (s\<lparr>timerActive := False\<rparr>) else Inr s)"

definition gameLoop :: "state \<Rightarrow> failure + state" where
  "gameLoop s =
     (case movesLoop [0..<length (snakes s)] (s, False) of
        Inl e \<Rightarrow> Inl e
      | Inr sa \<Rightarrow> gameOverCheck sa)"

section \<open>Keyboard and checkbox\<close>

definition keyDirection :: "string \<Rightarrow> cell option" where
  "keyDirection k =
     (if k = ''ArrowUp'' \<or> k = ''w'' \<or> k = ''W'' then Some (0, - 1)
      else if k = ''ArrowDown'' \<or> k = ''s'' \<or> k = ''S'' then Some (0, 1)
      else if k = ''ArrowLeft'' \<or> k = ''a'' \<or> k = ''A'' then Some (- 1, 0)
      else if k = ''ArrowRight'' \<or> k = ''d'' \<or> k = ''D'' then Some (1, 0)
      else None)"

definition keydown :: "string \<Rightarrow> state \<Rightarrow> state" where
  "keydown k s =
     (case findIndex userControlled (snakes s) of
        None \<Rightarrow> s
      | Some u \<Rightarrow>
          (case keyDirection k of
             None \<Rightarrow> s
           | Some newDir \<Rightarrow>
               let userSnake = snakes s ! u in
               if length (body userSnake) > 1
                  \<and> fst (direction userSnake) = - fst newDir
                  \<and> snd (direction userSnake) = - snd newDir
               then s
               else s\<lparr>snakes := (snakes s)[u := userSnake\<lparr>direction := newDir\<rparr>]\<rparr>))"

text \<open>
  The \<^verbatim>\<open>change\<close> listener of the checkbox; the event carries the new value \<open>b\<close> of
  \<^verbatim>\<open>checked\<close>.
\<close>

definition setControlled :: "nat \<Rightarrow> bool \<Rightarrow> state \<Rightarrow> state" where
  "setControlled d b s = s\<lparr>snakes := (snakes s)[d := (snakes s ! d)\<lparr>userControlled := b\<rparr>]\<rparr>"

definition checkboxChange :: "bool \<Rightarrow> state \<Rightarrow> state" where
  "checkboxChange b s0 =
     (let s = s0\<lparr>userControlCheck := b\<rparr>;
          designated = findIndex (\<lambda>sn. userSnakeId s = Some (snake_id sn)) (snakes s)
      in if b
         then (case designated of
                 Some d \<Rightarrow> setControlled d True s
               | None \<Rightarrow>
                   if length (snakes s) > 0
                   then (setControlled 0 True s)\<lparr>userSnakeId := Some (snake_id (snakes s ! 0))\<rparr>
                   else s)
         else (case designated of
                 Some d \<Rightarrow> setControlled d False s
               | None \<Rightarrow> s))"

section \<open>Creating the snakes and starting the game\<close>

definition presetColors :: "string list" where
  "presetColors =
     [''red'', ''blue'', ''green'', ''orange'', ''purple'', ''cyan'', ''magenta'', ''brown'',
      ''pink'', ''lime'', ''teal'', ''navy'', ''maroon'', ''olive'', ''coral'', ''turquoise'',
      ''violet'']"

definition foodCandidates :: "string list" where
  "foodCandidates =
     [''yellow'', ''black'', ''white'', ''gray'', ''silver'', ''gold'', ''teal'', ''navy'']"

text \<open>\<^verbatim>\<open>n.toString(16)\<close> for a natural number \<open>n\<close>.\<close>

definition hexDigit :: "nat \<Rightarrow> char" where
  "hexDigit d = ''0123456789abcdef'' ! d"

fun toString16 :: "nat \<Rightarrow> string" where
  "toString16 n =
     (if n < 16 then [hexDigit n] else toString16 (n div 16) @ [hexDigit (n mod 16)])"

text \<open>
  The \<^verbatim>\<open>do ... while\<close> loop that draws a colour no earlier snake has, and the
  \<^verbatim>\<open>while (!valid)\<close> loop that draws a starting cell no earlier snake occupies. Both
  may run forever (\<open>None\<close>).
\<close>

partial_function (option) randomColor :: "state \<Rightarrow> (string \<times> state) option" where
  "randomColor s =
     (let c = CHR ''#'' # toString16 (nat \<lfloor>rnd s (drawn s) * 16777215\<rfloor>);
          s1 = s\<lparr>drawn := drawn s + 1\<rparr>
      in if list_ex (\<lambda>sn. color sn = c) (snakes s) then randomColor s1 else Some (c, s1))"

partial_function (option) randomPosition :: "state \<Rightarrow> (cell \<times> state) option" where
  "randomPosition s =
     (let px = \<lfloor>rnd s (drawn s) * gridWidth s\<rfloor>;
          py = \<lfloor>rnd s (drawn s + 1) * gridHeight s\<rfloor>;
          s1 = s\<lparr>drawn := drawn s + 2\<rparr>
      in if cellTaken (snakes s) px py then randomPosition s1 else Some ((px, py), s1))"

declare randomColor.simps [code]

declare randomPosition.simps [code]

text \<open>
  \<^verbatim>\<open>directions[Math.floor(Math.random() * directions.length)]\<close> for the draw \<open>r\<close>.
  \<^verbatim>\<open>Math.random()\<close> lies in \<open>[0, 1)\<close>, so the index is one of 0, 1, 2, 3.
\<close>

definition pickDirection :: "rat \<Rightarrow> cell" where
  "pickDirection r =
     (let k = \<lfloor>r * 4\<rfloor> in
      if k \<le> 0 then (1, 0) else if k = 1 then (- 1, 0) else if k = 2 then (0, 1) else (0, - 1))"

text \<open>The body of the \<^verbatim>\<open>for\<close> loop of \<^verbatim>\<open>createSnakes\<close>, for the counter \<open>i\<close>.\<close>

definition createSnake :: "bool \<Rightarrow> nat \<Rightarrow> state \<Rightarrow> failure + state" where
  "createSnake enableUserControl i s =
     (case (if i < length presetColors then Some (presetColors ! i, s) else randomColor s) of
        None \<Rightarrow> Inl Hang
      | Some (c, s1) \<Rightarrow>
          let sn = \<lparr>snake_id = i, color = c, body = [], direction = (0, 0),
                    userControlled = False\<rparr>;
              designate = (i = 0 \<and> enableUserControl);
              sn1 = (if designate then sn\<lparr>userControlled := True\<rparr> else sn);
              s2 = (if designate then s1\<lparr>userSnakeId := Some (snake_id sn1)\<rparr> else s1)
          in (case randomPosition s2 of
                None \<Rightarrow> Inl Hang
              | Some (pos, s3) \<Rightarrow>
                  let sn2 = sn1\<lparr>body := body sn1 @ [pos]\<rparr>;
                      sn3 = sn2\<lparr>direction := pickDirection (rnd s3 (drawn s3))\<rparr>;
                      s4 = s3\<lparr>drawn := drawn s3 + 1\<rparr>
                  in Inr (s4\<lparr>snakes := snakes s4 @ [sn3]\<rparr>)))"

fun createLoop :: "bool \<Rightarrow> nat list \<Rightarrow> state \<Rightarrow> failure + state" where
  "createLoop en [] s = Inr s"
| "createLoop en (i # is) s =
     (case createSnake en i s of Inl e \<Rightarrow> Inl e | Inr s' \<Rightarrow> createLoop en is s')"

text \<open>
  \<^verbatim>\<open>createSnakes(count)\<close>: the counter runs over \<open>0, ..., count - 1\<close>, over nothing
  when \<open>count \<le> 0\<close>.
\<close>

definition createSnakes :: "int \<Rightarrow> state \<Rightarrow> failure + state" where
  "createSnakes count s =
     createLoop (userControlCheck s) [0..<nat count]
       (s\<lparr>snakes := [], userBlockedCounter := 0\<rparr>)"

text \<open>
  The click listener of the start button. \<open>parsed\<close> is the value of
  \<^verbatim>\<open>parseInt(...)\<close>, with \<open>None\<close> for \<^verbatim>\<open>NaN\<close>; \<^verbatim>\<open>|| 1\<close> replaces
  \<^verbatim>\<open>NaN\<close> and \<open>0\<close> by \<open>1\<close>.
\<close>

definition requestedCount :: "int option \<Rightarrow> int" where
  "requestedCount parsed = (case parsed of None \<Rightarrow> 1 | Some n \<Rightarrow> if n = 0 then 1 else n)"

definition startClick :: "int option \<Rightarrow> state \<Rightarrow> failure + state" where
  "startClick parsed s =
     (case createSnakes (requestedCount parsed) s of
        Inl e \<Rightarrow> Inl e
      | Inr s1 \<Rightarrow>
          let snakeColors = set (map color (snakes s1));
              chosenFoodColor =
                (case List.find (\<lambda>c. c \<notin> snakeColors) foodCandidates of
                   Some c \<Rightarrow> c
                 | None \<Rightarrow> ''yellow'');
              s2 = s1\<lparr>foodColor := chosenFoodColor\<rparr>
          in (case generateFood_result s2 of
                Inl e \<Rightarrow> Inl e
              | Inr s3 \<Rightarrow> Inr (s3\<lparr>timerActive := True\<rparr>)))"

section \<open>Runs of the page\<close>

text \<open>The state when the script has been loaded, before any event.\<close>

definition initialState :: "rat \<Rightarrow> rat \<Rightarrow> bool \<Rightarrow> (nat \<Rightarrow> rat) \<Rightarrow> state" where
  "initialState w h checked r =
     \<lparr>gridWidth = w, gridHeight = h, snakes = [], food = (0, 0), foodColor = ''yellow'',
      userSnakeId = None, userBlockedCounter = 0, userControlCheck = checked,
      timerActive = False, rnd = r, drawn = 0\<rparr>"

datatype event = StartClick "int option" | Tick | KeyDown string | CheckboxChange bool

text \<open>The interval calls \<^verbatim>\<open>gameLoop\<close> only while it is scheduled.\<close>

fun handle :: "state \<Rightarrow> event \<Rightarrow> failure + state" where
  "handle s (StartClick parsed) = startClick parsed s"
| "handle s Tick = (if timerActive s then gameLoop s else Inr s)"
| "handle s (KeyDown k) = Inr (keydown k s)"
| "handle s (CheckboxChange b) = Inr (checkboxChange b s)"

fun run :: "state \<Rightarrow> event list \<Rightarrow> failure + state" where
  "run s [] = Inr s"
| "run s (e # es) = (case handle s e of Inl f \<Rightarrow> Inl f | Inr s' \<Rightarrow> run s' es)"

text \<open>All segments on the board, snake by snake.\<close>

definition allSegments :: "snake list \<Rightarrow> cell list" where
  "allSegments ss = concat (map body ss)"

text \<open>
  The segments of snake \<open>i\<close> that \<^const>\<open>isCellOccupied\<close> looks at: all of them, or
  all but the tail when the snake is the one whose tail is ignored.
\<close>

definition visibleBody :: "snake list \<Rightarrow> nat option \<Rightarrow> nat \<Rightarrow> cell list" where
  "visibleBody ss ign i = (if ign = Some i then butlast (body (ss ! i)) else body (ss ! i))"


text \<open>
  The board is in order: no cell holds two segments, the food lies on no segment, and no
  body is empty.
\<close>

definition boardOk :: "snake list \<Rightarrow> cell \<Rightarrow> bool" where
  "boardOk ss f \<longleftrightarrow>
     distinct (allSegments ss) \<and> f \<notin> set (allSegments ss) \<and> (\<forall>sn\<in>set ss. body sn \<noteq> [])"

text \<open>
  Between \<open>s\<close> and \<open>s'\<close> only bodies and directions of snakes, the food and the number of
  draws differ, and the snakes whose index is outside \<open>J\<close> are the same.
\<close>

definition movedOnly :: "nat set \<Rightarrow> state \<Rightarrow> state \<Rightarrow> bool" where
  "movedOnly J s s' \<longleftrightarrow>
     s' = s\<lparr>snakes := snakes s', food := food s', drawn := drawn s'\<rparr>
     \<and> length (snakes s') = length (snakes s)
     \<and> (\<forall>k<length (snakes s).
           snakes s' ! k = (snakes s ! k)\<lparr>body := body (snakes s' ! k),
                                            direction := direction (snakes s' ! k)\<rparr>)
     \<and> (\<forall>k<length (snakes s). k \<notin> J \<longrightarrow> snakes s' ! k = snakes s ! k)"

text \<open>
  The test at the end of \<^verbatim>\<open>gameLoop\<close>: the user-controlled snake exists and none of
  the four neighbours of its head is a safe move.
\<close>

definition userSurrounded :: "state \<Rightarrow> bool" where
  "userSurrounded s \<longleftrightarrow>
     (case findIndex userControlled (snakes s) of
        None \<Rightarrow> False
      | Some u \<Rightarrow> (case body (snakes s ! u) of [] \<Rightarrow> False | h # _ \<Rightarrow> safeMoves s u h = []))"

text \<open>User-control mode: the checkbox is checked and some snake is user-controlled.\<close>

definition humanMode :: "state \<Rightarrow> bool" where
  "humanMode s \<longleftrightarrow> userControlCheck s \<and> findIndex userControlled (snakes s) \<noteq> None"

text \<open>
  After the moves of the tick that starts in \<open>s\<close>, the user-controlled snake is
  surrounded.
\<close>

definition tickSurrounded :: "state \<Rightarrow> bool" where
  "tickSurrounded s \<longleftrightarrow>
     (case movesLoop [0..<length (snakes s)] (s, False) of
        Inl f \<Rightarrow> False
      | Inr sa \<Rightarrow> userSurrounded (fst sa))"

text \<open>Keys pressed between two ticks.\<close>

definition keysPressed :: "string list \<Rightarrow> state \<Rightarrow> state" where
  "keysPressed ks s = fold keydown ks s"

text \<open>
  The bookkeeping of user control is consistent: the id of a snake is its index, only the
  designated snake is user-controlled and only while the checkbox is checked, and with
  the checkbox checked some snake is user-controlled unless there is no snake at all.
\<close>

definition controlOk :: "state \<Rightarrow> bool" where
  "controlOk s \<longleftrightarrow>
     (\<forall>k<length (snakes s). snake_id (snakes s ! k) = k)
     \<and> (\<forall>k<length (snakes s). userControlled (snakes s ! k)
            \<longrightarrow> userControlCheck s \<and> userSnakeId s = Some k)
     \<and> (userControlCheck s \<and> snakes s \<noteq> []
            \<longrightarrow> (\<exists>k<length (snakes s). userControlled (snakes s ! k)))"

text \<open>Direction \<open>d\<close> is the exact reverse of direction \<open>e\<close>.\<close>

definition reverses :: "cell \<Rightarrow> cell \<Rightarrow> bool" where
  "reverses d e \<longleftrightarrow> fst d = - fst e \<and> snd d = - snd e"

text \<open>
  Inside a tick, the iteration for snake \<open>i\<close> runs on the state that the iterations for
  the snakes before it have left: \<open>layoutSeenBy\<close> gives the bodies in that state, which
  are what \<^const>\<open>isCellOccupied\<close> reads for snake \<open>i\<close>, and \<open>planSeenBy\<close> the
  planner's answer for snake \<open>i\<close> there.
\<close>

definition layoutSeenBy :: "nat \<Rightarrow> state \<Rightarrow> failure + cell list list" where
  "layoutSeenBy i s =
     (case movesLoop [0..<i] (s, False) of
        Inl e \<Rightarrow> Inl e
      | Inr sa \<Rightarrow> Inr (map body (snakes (fst sa))))"

definition planSeenBy :: "nat \<Rightarrow> state \<Rightarrow> failure + cell option" where
  "planSeenBy i s =
     (case movesLoop [0..<i] (s, False) of
        Inl e \<Rightarrow> Inl e
      | Inr sa \<Rightarrow> getNextDirection (fst sa) i)"

text \<open>The bodies after a whole tick.\<close>

definition layoutAfterTick :: "state \<Rightarrow> failure + cell list list" where
  "layoutAfterTick s =
     (case gameLoop s of Inl e \<Rightarrow> Inl e | Inr s' \<Rightarrow> Inr (map body (snakes s')))"

section \<open>Example states\<close>

text \<open>
  Two AI snakes on a 3 by 2 board, in opposite corners of the top row, the food below the
  cell between them: for each snake two moves are equally near the food.
\<close>

definition tieState :: state where
  "tieState =
     \<lparr>gridWidth = 3, gridHeight = 2,
      snakes = [\<lparr>snake_id = 0, color = ''red'', body = [(0, 0)], direction = (1, 0),
                 userControlled = False\<rparr>,
                \<lparr>snake_id = 1, color = ''blue'', body = [(2, 0)], direction = (- 1, 0),
                 userControlled = False\<rparr>],
      food = (1, 1), foodColor = ''yellow'', userSnakeId = None, userBlockedCounter = 0,
      userControlCheck = False, timerActive = True, rnd = (\<lambda>n. 0), drawn = 0\<rparr>"

text \<open>
  A random source whose fourth draw is 2/3 and all others 0, and a short run: one snake
  is started on a 3 by 2 board and the timer fires twice.
\<close>

definition demoRandom :: "nat \<Rightarrow> rat" where
  "demoRandom n = (if n = 3 then 2 / 3 else 0)"

definition demoEvents :: "event list" where
  "demoEvents = [StartClick (Some 1), Tick, Tick]"


text \<open>
  A user-controlled snake in the corner (0, 0) of a 3 by 3 board, heading into the wall,
  and an AI snake of three segments passing by: after the next tick the AI snake covers
  both neighbours of the corner. With \<open>freedRandom\<close> the next food appears at (2, 2) and
  the AI snake moves on; with \<open>stuckRandom\<close> it appears at (1, 2), the AI snake eats it
  and keeps its tail in place.
\<close>

definition boxedState :: "(nat \<Rightarrow> rat) \<Rightarrow> state" where
  "boxedState r =
     \<lparr>gridWidth = 3, gridHeight = 3,
      snakes = [\<lparr>snake_id = 0, color = ''red'', body = [(0, 0)], direction = (- 1, 0),
                 userControlled = True\<rparr>,
                \<lparr>snake_id = 1, color = ''blue'', body = [(1, 1), (1, 0), (2, 0)],
                 direction = (0, 1), userControlled = False\<rparr>],
      food = (0, 2), foodColor = ''yellow'', userSnakeId = Some 0, userBlockedCounter = 0,
      userControlCheck = True, timerActive = True, rnd = r, drawn = 0\<rparr>"

definition freedRandom :: "nat \<Rightarrow> rat" where
  "freedRandom n = 2 / 3"

definition stuckRandom :: "nat \<Rightarrow> rat" where
  "stuckRandom n = (if n = 0 then 1 / 3 else 2 / 3)"

text \<open>
  A single AI snake on a 2 by 3 board whose head in the corner (0, 0) is enclosed by the
  walls and its own body.
\<close>

definition trappedState :: state where
  "trappedState =
     \<lparr>gridWidth = 2, gridHeight = 3,
      snakes = [\<lparr>snake_id = 0, color = ''red'',
                 body = [(0, 0), (1, 0), (1, 1), (0, 1), (0, 2)], direction = (- 1, 0),
                 userControlled = False\<rparr>],
      food = (1, 2), foodColor = ''yellow'', userSnakeId = None, userBlockedCounter = 0,
      userControlCheck = False, timerActive = True, rnd = (\<lambda>n. 0), drawn = 0\<rparr>"

text \<open>
  A user-controlled snake heading into the left wall of a 4 by 1 board, and an AI snake of
  two segments stuck at the right wall. Nobody can move as directed, but the user snake
  could turn right.
\<close>

definition idleState :: state where
  "idleState =
     \<lparr>gridWidth = 4, gridHeight = 1,
      snakes = [\<lparr>snake_id = 0, color = ''red'', body = [(0, 0)], direction = (- 1, 0),
                 userControlled = True\<rparr>,
                \<lparr>snake_id = 1, color = ''blue'', body = [(3, 0), (2, 0)], direction = (1, 0),
                 userControlled = False\<rparr>],
      food = (1, 0), foodColor = ''yellow'', userSnakeId = Some 0, userBlockedCounter = 2,
      userControlCheck = True, timerActive = True, rnd = (\<lambda>n. 0), drawn = 0\<rparr>"

text \<open>A user-controlled snake of two segments moving right on a 3 by 2 board.\<close>

definition longUserState :: state where
  "longUserState =
     \<lparr>gridWidth = 3, gridHeight = 2,
      snakes = [\<lparr>snake_id = 0, color = ''red'', body = [(1, 0), (0, 0)], direction = (1, 0),
                 userControlled = True\<rparr>],
      food = (2, 1), foodColor = ''yellow'', userSnakeId = Some 0, userBlockedCounter = 0,
      userControlCheck = True, timerActive = True, rnd = (\<lambda>n. 0), drawn = 0\<rparr>"

text \<open>
  The board after the start button has been clicked with the count -3 on a 3 by 2 grid,
  the checkbox checked and a random source that always yields 0: no snake, the food at
  (0, 0), the timer running.
\<close>

definition zeroRandom :: "nat \<Rightarrow> rat" where
  "zeroRandom n = 0"

definition emptyBoard :: state where
  "emptyBoard =
     \<lparr>gridWidth = 3, gridHeight = 2, snakes = [], food = (0, 0), foodColor = ''yellow'',
      userSnakeId = None, userBlockedCounter = 0, userControlCheck = True,
      timerActive = True, rnd = zeroRandom, drawn = 2\<rparr>"
section \<open>Occupancy and food placement\<close>

lemma cellTaken_iff: "cellTaken ss nx ny \<longleftrightarrow> (nx, ny) \<in> set (allSegments ss)"
  by (auto simp: cellTaken_def allSegments_def list_ex_iff)

lemma tail_scan_iff:
  "(\<exists>j<length b. \<not> (int j = int (length b) - 1) \<and> b ! j = c) \<longleftrightarrow> c \<in> set (butlast b)"
proof
  assume "\<exists>j<length b. \<not> (int j = int (length b) - 1) \<and> b ! j = c"
  then obtain j where j: "j < length b" "int j \<noteq> int (length b) - 1" "b ! j = c" by blast
  then have "j < length (butlast b)" by simp
  moreover from this j have "butlast b ! j = c" by (simp add: nth_butlast)
  ultimately show "c \<in> set (butlast b)" by (metis nth_mem)
next
  assume "c \<in> set (butlast b)"
  then obtain j where j: "j < length (butlast b)" "butlast b ! j = c"
    by (auto simp: in_set_conv_nth)
  then have "j < length b" "int j \<noteq> int (length b) - 1" "b ! j = c"
    by (simp_all add: nth_butlast)
  then show "\<exists>j<length b. \<not> (int j = int (length b) - 1) \<and> b ! j = c" by blast
qed

lemma isCellOccupied_iff:
  "isCellOccupied ss nx ny ign \<longleftrightarrow> (\<exists>i<length ss. (nx, ny) \<in> set (visibleBody ss ign i))"
proof -
  have "(\<exists>j<length b. \<not> (ign = Some i \<and> int j = int (length b) - 1) \<and> b ! j = c)
        \<longleftrightarrow> c \<in> set (if ign = Some i then butlast b else b)" for b :: "cell list" and i c
    using tail_scan_iff [of b c] by (auto simp: in_set_conv_nth)
  then show ?thesis
    by (simp add: isCellOccupied_def visibleBody_def list_ex_iff Let_def Bex_def)
qed

text \<open>When \<^const>\<open>generateFood\<close> returns, it has changed the food and the number of draws only,
  and the new food lies on no segment.\<close>

lemma generateFood_Some:
  assumes "generateFood s = Some s'"
  shows "s' = s\<lparr>drawn := drawn s', food := food s'\<rparr>
         \<and> \<not> cellTaken (snakes s) (fst (food s')) (snd (food s'))"
proof (rule generateFood.raw_induct
    [where P = "\<lambda>s s'. s' = s\<lparr>drawn := drawn s', food := food s'\<rparr>
         \<and> \<not> cellTaken (snakes s) (fst (food s')) (snd (food s'))", OF _ assms])
  fix gf :: "state \<Rightarrow> state option" and s s'
  assume IH: "\<And>t t'. gf t = Some t' \<Longrightarrow> t' = t\<lparr>drawn := drawn t', food := food t'\<rparr>
         \<and> \<not> cellTaken (snakes t) (fst (food t')) (snd (food t'))"
    and eq: "(let nx = \<lfloor>rnd s (drawn s) * gridWidth s\<rfloor>;
          ny = \<lfloor>rnd s (drawn s + 1) * gridHeight s\<rfloor>;
          s1 = s\<lparr>drawn := drawn s + 2\<rparr>
      in if cellTaken (snakes s) nx ny then gf s1
         else Some (s1\<lparr>food := (nx, ny)\<rparr>)) = Some s'"
  show "s' = s\<lparr>drawn := drawn s', food := food s'\<rparr>
         \<and> \<not> cellTaken (snakes s) (fst (food s')) (snd (food s'))"
  proof (cases "cellTaken (snakes s) \<lfloor>rnd s (drawn s) * gridWidth s\<rfloor>
                  \<lfloor>rnd s (drawn s + 1) * gridHeight s\<rfloor>")
    case True
    with eq have "gf (s\<lparr>drawn := drawn s + 2\<rparr>) = Some s'" by (simp add: Let_def)
    from IH [OF this] show ?thesis by simp
  next
    case False
    with eq show ?thesis by (auto simp: Let_def)
  qed
qed


section \<open>The planner picks the first nearest safe direction\<close>

lemma hd_insort_key:
  "hd (insort_key f a ys) = (if ys = [] \<or> f a \<le> f (hd ys) then a else hd ys)"
  by (cases ys) auto

lemma hd_sort_key_first_min:
  fixes f :: "'a \<Rightarrow> int"
  shows "xs \<noteq> [] \<Longrightarrow>
    \<exists>us vs. xs = us @ hd (sort_key f xs) # vs
      \<and> (\<forall>u\<in>set us. f (hd (sort_key f xs)) < f u)
      \<and> (\<forall>v\<in>set vs. f (hd (sort_key f xs)) \<le> f v)"
proof (induction xs)
  case Nil
  then show ?case by simp
next
  case (Cons a xs)
  show ?case
  proof (cases "xs = []")
    case True
    then show ?thesis by (intro exI [of _ "[]"]) simp
  next
    case False
    let ?m = "hd (sort_key f xs)"
    from Cons.IH [OF False] obtain us vs where
      split: "xs = us @ ?m # vs" and
      lt: "\<forall>u\<in>set us. f ?m < f u" and le: "\<forall>v\<in>set vs. f ?m \<le> f v"
      by blast
    have ne: "sort_key f xs \<noteq> []" using False by (metis length_sort length_0_conv)
    show ?thesis
    proof (cases "f a \<le> f ?m")
      case True
      with ne have hd: "hd (sort_key f (a # xs)) = a" by (simp add: hd_insort_key)
      have "\<forall>v\<in>set xs. f a \<le> f v"
      proof
        fix v assume "v \<in> set xs"
        then have "v \<in> set us \<or> v = ?m \<or> v \<in> set vs" by (subst (asm) split) auto
        with lt le True show "f a \<le> f v" by fastforce
      qed
      with hd show ?thesis by (intro exI [of _ "[]"] exI [of _ xs]) simp
    next
      case False
      with ne have hd: "hd (sort_key f (a # xs)) = ?m" by (simp add: hd_insort_key)
      have "a # xs = (a # us) @ ?m # vs" using split by simp
      moreover have "\<forall>u\<in>set (a # us). f ?m < f u" using lt False by auto
      ultimately show ?thesis using le unfolding hd by blast
    qed
  qed
qed

lemma filter_eq_append_ConsD:
  "filter P ys = us @ a # vs \<Longrightarrow>
   \<exists>pre post. ys = pre @ a # post \<and> us = filter P pre \<and> vs = filter P post"
proof (induction ys arbitrary: us)
  case Nil
  then show ?case by simp
next
  case (Cons b ys)
  show ?case
  proof (cases "P b")
    case False
    with Cons.prems have "filter P ys = us @ a # vs" by simp
    from Cons.IH [OF this] obtain pre post where
      "ys = pre @ a # post" "us = filter P pre" "vs = filter P post" by blast
    with False show ?thesis by (intro exI [of _ "b # pre"] exI [of _ post]) simp
  next
    case True
    show ?thesis
    proof (cases us)
      case Nil
      with True Cons.prems show ?thesis by (intro exI [of _ "[]"] exI [of _ ys]) simp
    next
      case (Cons u us')
      with True Cons.prems have "filter P ys = us' @ a # vs" "b = u" by simp_all
      from Cons.IH [OF this(1)] obtain pre post where
        "ys = pre @ a # post" "us' = filter P pre" "vs = filter P post" by blast
      with True Cons \<open>b = u\<close> show ?thesis by (intro exI [of _ "b # pre"] exI [of _ post]) simp
    qed
  qed
qed

lemma safeDirections_filter:
  "\<exists>Q. safeDirections s i h = filter Q allDirections"
  by (auto simp: safeDirections_def possibleDirections_def)

lemma distinct_allDirections: "distinct allDirections"
  by (simp add: allDirections_def)

lemma possibleDirections_mem:
  "e \<in> set (possibleDirections sn) \<longleftrightarrow>
     e \<in> set allDirections \<and> \<not> (1 < length (body sn) \<and> reverses e (direction sn))"
  by (simp add: possibleDirections_def reverses_def)

lemma safeDirections_mem:
  "e \<in> set (safeDirections s i h) \<longleftrightarrow>
            e \<in> set [(1, 0), (- 1, 0), (0, 1), (0, - 1)]
            \<and> \<not> (1 < length (body (snakes s ! i)) \<and> reverses e (direction (snakes s ! i)))
            \<and> 0 \<le> fst h + fst e \<and> of_int (fst h + fst e) < gridWidth s
            \<and> 0 \<le> snd h + snd e \<and> of_int (snd h + snd e) < gridHeight s
            \<and> \<not> isCellOccupied (snakes s) (fst h + fst e) (snd h + snd e) (Some i)"
proof -
  have "e \<in> set (safeDirections s i h) \<longleftrightarrow>
      e \<in> set (possibleDirections (snakes s ! i))
      \<and> \<not> outOfBounds s (fst h + fst e) (snd h + snd e)
      \<and> \<not> isCellOccupied (snakes s) (fst h + fst e) (snd h + snd e) (Some i)"
    by (simp add: safeDirections_def Let_def)
  also have "\<dots> \<longleftrightarrow> e \<in> set allDirections
            \<and> \<not> (1 < length (body (snakes s ! i)) \<and> reverses e (direction (snakes s ! i)))
            \<and> 0 \<le> fst h + fst e \<and> of_int (fst h + fst e) < gridWidth s
            \<and> 0 \<le> snd h + snd e \<and> of_int (snd h + snd e) < gridHeight s
            \<and> \<not> isCellOccupied (snakes s) (fst h + fst e) (snd h + snd e) (Some i)"
    unfolding possibleDirections_mem outOfBounds_def
    by (simp only: not_le not_less de_Morgan_disj) blast
  finally show ?thesis by (simp only: allDirections_def)
qed

text \<open>
  Claim C4. When the snake at index \<open>i\<close> has a head \<open>h\<close> and at least one surviving
  direction, the planner returns a surviving direction \<open>d\<close> whose prospective head
  \<open>h + d\<close> is nearest to the food in Manhattan distance
  \<open>|h.x + d.x - food.x| + |h.y + d.y - food.y|\<close> among all surviving directions; and
  every surviving direction that stands before \<open>d\<close> in the fixed order (1,0), (-1,0),
  (0,1), (0,-1) is strictly farther from the food, so among equally near ones the earliest
  is returned. The surviving directions are those of the four that are not the reverse of
  the snake's direction (for a body of more than one segment), whose prospective head is
  inside the grid and not occupied, the snake's own tail apart.
\<close>

theorem planner_first_nearest:
  assumes body: "body (snakes s ! i) = h # rest"
    and safe: "safeDirections s i h \<noteq> []"
  shows "\<exists>d pre post.
      getNextDirection s i = Inr (Some d)
      \<and> d \<in> set (safeDirections s i h)
      \<and> (\<forall>e\<in>set (safeDirections s i h).
            \<bar>fst h + fst d - fst (food s)\<bar> + \<bar>snd h + snd d - snd (food s)\<bar>
            \<le> \<bar>fst h + fst e - fst (food s)\<bar> + \<bar>snd h + snd e - snd (food s)\<bar>)
      \<and> [(1, 0), (- 1, 0), (0, 1), (0, - 1)] = pre @ d # post
      \<and> (\<forall>e\<in>set pre. e \<in> set (safeDirections s i h) \<longrightarrow>
            \<bar>fst h + fst d - fst (food s)\<bar> + \<bar>snd h + snd d - snd (food s)\<bar>
            < \<bar>fst h + fst e - fst (food s)\<bar> + \<bar>snd h + snd e - snd (food s)\<bar>)
      \<and> (\<forall>e. e \<in> set (safeDirections s i h) \<longleftrightarrow>
            e \<in> set [(1, 0), (- 1, 0), (0, 1), (0, - 1)]
            \<and> \<not> (1 < length (body (snakes s ! i)) \<and> reverses e (direction (snakes s ! i)))
            \<and> 0 \<le> fst h + fst e \<and> of_int (fst h + fst e) < gridWidth s
            \<and> 0 \<le> snd h + snd e \<and> of_int (snd h + snd e) < gridHeight s
            \<and> \<not> isCellOccupied (snakes s) (fst h + fst e) (snd h + snd e) (Some i))"
proof -
  let ?safe = "safeDirections s i h"
  let ?f = "foodDistance s h"
  let ?d = "hd (sort_key ?f ?safe)"
  have f: "?f e = \<bar>fst h + fst e - fst (food s)\<bar> + \<bar>snd h + snd e - snd (food s)\<bar>" for e
    by (simp add: foodDistance_def)
  have ret: "getNextDirection s i = Inr (Some ?d)"
    using body safe by (simp add: getNextDirection_def Let_def)
  from hd_sort_key_first_min [OF safe, of ?f] obtain us vs where
    split: "?safe = us @ ?d # vs" and
    lt: "\<forall>u\<in>set us. ?f ?d < ?f u" and le: "\<forall>v\<in>set vs. ?f ?d \<le> ?f v"
    by blast
  have mem: "?d \<in> set ?safe" by (subst split) simp
  have min: "\<forall>e\<in>set ?safe. ?f ?d \<le> ?f e"
  proof
    fix e assume "e \<in> set ?safe"
    then have "e \<in> set us \<or> e = ?d \<or> e \<in> set vs" by (subst (asm) split) auto
    with lt le show "?f ?d \<le> ?f e" by fastforce
  qed
  obtain Q where Q: "?safe = filter Q allDirections"
    using safeDirections_filter by blast
  with split have "filter Q allDirections = us @ ?d # vs" by simp
  from filter_eq_append_ConsD [OF this] obtain pre post where
    all: "allDirections = pre @ ?d # post" and us: "us = filter Q pre" and vs: "vs = filter Q post"
    by blast
  have first: "\<forall>e\<in>set pre. e \<in> set ?safe \<longrightarrow> ?f ?d < ?f e"
  proof (intro ballI impI)
    fix e assume e: "e \<in> set pre" "e \<in> set ?safe"
    from e(2) Q have "Q e" by simp
    with e(1) us have "e \<in> set us" by simp
    with lt show "?f ?d < ?f e" by blast
  qed
  have surv: "\<forall>e. e \<in> set ?safe \<longleftrightarrow>
            e \<in> set [(1, 0), (- 1, 0), (0, 1), (0, - 1)]
            \<and> \<not> (1 < length (body (snakes s ! i)) \<and> reverses e (direction (snakes s ! i)))
            \<and> 0 \<le> fst h + fst e \<and> of_int (fst h + fst e) < gridWidth s
            \<and> 0 \<le> snd h + snd e \<and> of_int (snd h + snd e) < gridHeight s
            \<and> \<not> isCellOccupied (snakes s) (fst h + fst e) (snd h + snd e) (Some i)"
    by (intro allI) (rule safeDirections_mem)
  have all': "[(1, 0), (- 1, 0), (0, 1), (0, - 1)] = pre @ ?d # post"
    using all by (simp only: allDirections_def)
  have min': "\<forall>e\<in>set ?safe.
            \<bar>fst h + fst ?d - fst (food s)\<bar> + \<bar>snd h + snd ?d - snd (food s)\<bar>
            \<le> \<bar>fst h + fst e - fst (food s)\<bar> + \<bar>snd h + snd e - snd (food s)\<bar>"
    using min unfolding f .
  have first': "\<forall>e\<in>set pre. e \<in> set ?safe \<longrightarrow>
            \<bar>fst h + fst ?d - fst (food s)\<bar> + \<bar>snd h + snd ?d - snd (food s)\<bar>
            < \<bar>fst h + fst e - fst (food s)\<bar> + \<bar>snd h + snd e - snd (food s)\<bar>"
    using first unfolding f .
  define P where "P = (\<lambda>d pre post.
      getNextDirection s i = Inr (Some d)
      \<and> d \<in> set (safeDirections s i h)
      \<and> (\<forall>e\<in>set (safeDirections s i h).
            \<bar>fst h + fst d - fst (food s)\<bar> + \<bar>snd h + snd d - snd (food s)\<bar>
            \<le> \<bar>fst h + fst e - fst (food s)\<bar> + \<bar>snd h + snd e - snd (food s)\<bar>)
      \<and> [(1, 0), (- 1, 0), (0, 1), (0, - 1)] = pre @ d # post
      \<and> (\<forall>e\<in>set pre. e \<in> set (safeDirections s i h) \<longrightarrow>
            \<bar>fst h + fst d - fst (food s)\<bar> + \<bar>snd h + snd d - snd (food s)\<bar>
            < \<bar>fst h + fst e - fst (food s)\<bar> + \<bar>snd h + snd e - snd (food s)\<bar>)
      \<and> (\<forall>e. e \<in> set (safeDirections s i h) \<longleftrightarrow>
            e \<in> set [(1, 0), (- 1, 0), (0, 1), (0, - 1)]
            \<and> \<not> (1 < length (body (snakes s ! i)) \<and> reverses e (direction (snakes s ! i)))
            \<and> 0 \<le> fst h + fst e \<and> of_int (fst h + fst e) < gridWidth s
            \<and> 0 \<le> snd h + snd e \<and> of_int (snd h + snd e) < gridHeight s
            \<and> \<not> isCellOccupied (snakes s) (fst h + fst e) (snd h + snd e) (Some i)))"
  have "P ?d pre post"
    unfolding P_def by (intro conjI) (rule ret mem min' all' first' surv)+
  then have "\<exists>d pre post. P d pre post" by (intro exI)
  then show ?thesis unfolding P_def .
qed

theorem planner_first_nearest_witness:
  "body (snakes tieState ! 0) = (0, 0) # []
   \<and> safeDirections tieState 0 (0, 0) = [(1, 0), (0, 1)]
   \<and> food tieState = (1, 1)
   \<and> getNextDirection tieState 0 = Inr (Some (1, 0))
   \<and> (\<exists>d pre post.
      getNextDirection tieState 0 = Inr (Some d)
      \<and> (\<forall>e\<in>set (safeDirections tieState 0 (0, 0)).
            \<bar>fst ((0, 0)::cell) + fst d - fst (food tieState)\<bar> + \<bar>snd ((0, 0)::cell) + snd d - snd (food tieState)\<bar>
            \<le> \<bar>fst ((0, 0)::cell) + fst e - fst (food tieState)\<bar>
               + \<bar>snd ((0, 0)::cell) + snd e - snd (food tieState)\<bar>)
      \<and> [(1, 0), (- 1, 0), (0, 1), (0, - 1)] = pre @ d # post)
   \<and> body (snakes (boxedState freedRandom) ! 1) = (1, 1) # [(1, 0), (2, 0)]
   \<and> direction (snakes (boxedState freedRandom) ! 1) = (0, 1)
   \<and> safeDirections (boxedState freedRandom) 1 (1, 1) = [(1, 0), (- 1, 0), (0, 1)]
   \<and> food (boxedState freedRandom) = (0, 2)
   \<and> getNextDirection (boxedState freedRandom) 1 = Inr (Some (- 1, 0))
   \<and> (\<exists>pre post. ([(1, 0), (- 1, 0), (0, 1), (0, - 1)]::cell list) = pre @ (- 1, 0) # post
        \<and> (1, 0) \<in> set pre
        \<and> \<bar>fst ((1, 1)::cell) + fst ((- 1, 0)::cell) - fst (food (boxedState freedRandom))\<bar>
           + \<bar>snd ((1, 1)::cell) + snd ((- 1, 0)::cell) - snd (food (boxedState freedRandom))\<bar>
           < \<bar>fst ((1, 1)::cell) + fst ((1, 0)::cell) - fst (food (boxedState freedRandom))\<bar>
             + \<bar>snd ((1, 1)::cell) + snd ((1, 0)::cell) - snd (food (boxedState freedRandom))\<bar>)
   \<and> \<bar>(1::int) + (- 1) - 0\<bar> + \<bar>(1::int) + 0 - 2\<bar> = 1
   \<and> \<bar>(1::int) + 1 - 0\<bar> + \<bar>(1::int) + 0 - 2\<bar> = 3"
proof -
  have b: "body (snakes tieState ! 0) = (0, 0) # []" by (simp add: tieState_def)
  have sf: "safeDirections tieState 0 (0, 0) = [(1, 0), (0, 1)]" by code_simp
  then have ne: "safeDirections tieState 0 (0, 0) \<noteq> []" by simp
  have fd: "food tieState = (1, 1)" by (simp add: tieState_def)
  have ret: "getNextDirection tieState 0 = Inr (Some (1, 0))" by code_simp
  from planner_first_nearest [OF b ne] obtain d pre post where
    v: "getNextDirection tieState 0 = Inr (Some d)"
    "d \<in> set (safeDirections tieState 0 (0, 0))"
    "\<forall>e\<in>set (safeDirections tieState 0 (0, 0)).
            \<bar>fst ((0, 0)::cell) + fst d - fst (food tieState)\<bar> + \<bar>snd ((0, 0)::cell) + snd d - snd (food tieState)\<bar>
            \<le> \<bar>fst ((0, 0)::cell) + fst e - fst (food tieState)\<bar>
               + \<bar>snd ((0, 0)::cell) + snd e - snd (food tieState)\<bar>"
    "[(1, 0), (- 1, 0), (0, 1), (0, - 1)] = pre @ d # post"
    by (elim exE conjE) (erule (3) that)
  have tie: "\<exists>d pre post.
      getNextDirection tieState 0 = Inr (Some d)
      \<and> (\<forall>e\<in>set (safeDirections tieState 0 (0, 0)).
            \<bar>fst ((0, 0)::cell) + fst d - fst (food tieState)\<bar> + \<bar>snd ((0, 0)::cell) + snd d - snd (food tieState)\<bar>
            \<le> \<bar>fst ((0, 0)::cell) + fst e - fst (food tieState)\<bar>
               + \<bar>snd ((0, 0)::cell) + snd e - snd (food tieState)\<bar>)
      \<and> [(1, 0), (- 1, 0), (0, 1), (0, - 1)] = pre @ d # post"
  proof -
    have "getNextDirection tieState 0 = Inr (Some d)
      \<and> (\<forall>e\<in>set (safeDirections tieState 0 (0, 0)).
            \<bar>fst ((0, 0)::cell) + fst d - fst (food tieState)\<bar> + \<bar>snd ((0, 0)::cell) + snd d - snd (food tieState)\<bar>
            \<le> \<bar>fst ((0, 0)::cell) + fst e - fst (food tieState)\<bar>
               + \<bar>snd ((0, 0)::cell) + snd e - snd (food tieState)\<bar>)
      \<and> [(1, 0), (- 1, 0), (0, 1), (0, - 1)] = pre @ d # post"
      by (intro conjI) (rule v(1) v(3) v(4))+
    then show ?thesis by (intro exI)
  qed
  let ?b = "boxedState freedRandom"
  have bb: "body (snakes ?b ! 1) = (1, 1) # [(1, 0), (2, 0)]" by (simp add: boxedState_def)
  have db: "direction (snakes ?b ! 1) = (0, 1)" by (simp add: boxedState_def)
  have sb: "safeDirections ?b 1 (1, 1) = [(1, 0), (- 1, 0), (0, 1)]" by code_simp
  then have nb: "safeDirections ?b 1 (1, 1) \<noteq> []" by simp
  have fb: "food ?b = (0, 2)" by (simp add: boxedState_def)
  have rb: "getNextDirection ?b 1 = Inr (Some (- 1, 0))" by code_simp
  from planner_first_nearest [OF bb nb] obtain d' pre' post' where
    w: "getNextDirection ?b 1 = Inr (Some d')"
    "d' \<in> set (safeDirections ?b 1 (1, 1))"
    "\<forall>e\<in>set (safeDirections ?b 1 (1, 1)).
            \<bar>fst ((1, 1)::cell) + fst d' - fst (food ?b)\<bar> + \<bar>snd ((1, 1)::cell) + snd d' - snd (food ?b)\<bar>
            \<le> \<bar>fst ((1, 1)::cell) + fst e - fst (food ?b)\<bar> + \<bar>snd ((1, 1)::cell) + snd e - snd (food ?b)\<bar>"
    "[(1, 0), (- 1, 0), (0, 1), (0, - 1)] = pre' @ d' # post'"
    "\<forall>e\<in>set pre'. e \<in> set (safeDirections ?b 1 (1, 1)) \<longrightarrow>
            \<bar>fst ((1, 1)::cell) + fst d' - fst (food ?b)\<bar> + \<bar>snd ((1, 1)::cell) + snd d' - snd (food ?b)\<bar>
            < \<bar>fst ((1, 1)::cell) + fst e - fst (food ?b)\<bar> + \<bar>snd ((1, 1)::cell) + snd e - snd (food ?b)\<bar>"
    by (elim exE conjE) (erule (4) that)
  from w(1) rb have d: "d' = (- 1, 0)" by simp
  from w(4) have pre: "pre' = [(1, 0)]" unfolding d
    by (cases pre') (auto simp: Cons_eq_append_conv)
  have i1: "(1, 0) \<in> set pre'" by (simp add: pre)
  have i2: "(1, 0) \<in> set (safeDirections ?b 1 (1, 1))" unfolding sb by simp
  from w(5) i1 i2
  have lt: "\<bar>fst ((1, 1)::cell) + fst ((- 1, 0)::cell) - fst (food ?b)\<bar> + \<bar>snd ((1, 1)::cell) + snd ((- 1, 0)::cell) - snd (food ?b)\<bar>
           < \<bar>fst ((1, 1)::cell) + fst ((1, 0)::cell) - fst (food ?b)\<bar> + \<bar>snd ((1, 1)::cell) + snd ((1, 0)::cell) - snd (food ?b)\<bar>"
    unfolding d by blast
  have later: "\<exists>pre post. ([(1, 0), (- 1, 0), (0, 1), (0, - 1)]::cell list) = pre @ (- 1, 0) # post
        \<and> (1, 0) \<in> set pre
        \<and> \<bar>fst ((1, 1)::cell) + fst ((- 1, 0)::cell) - fst (food ?b)\<bar> + \<bar>snd ((1, 1)::cell) + snd ((- 1, 0)::cell) - snd (food ?b)\<bar>
           < \<bar>fst ((1, 1)::cell) + fst ((1, 0)::cell) - fst (food ?b)\<bar> + \<bar>snd ((1, 1)::cell) + snd ((1, 0)::cell) - snd (food ?b)\<bar>"
  proof -
    have e4: "([(1, 0), (- 1, 0), (0, 1), (0, - 1)]::cell list) = pre' @ (- 1, 0) # post'"
      using w(4) unfolding d .
    have "([(1, 0), (- 1, 0), (0, 1), (0, - 1)]::cell list) = pre' @ (- 1, 0) # post'
        \<and> (1, 0) \<in> set pre'
        \<and> \<bar>fst ((1, 1)::cell) + fst ((- 1, 0)::cell) - fst (food ?b)\<bar> + \<bar>snd ((1, 1)::cell) + snd ((- 1, 0)::cell) - snd (food ?b)\<bar>
           < \<bar>fst ((1, 1)::cell) + fst ((1, 0)::cell) - fst (food ?b)\<bar> + \<bar>snd ((1, 1)::cell) + snd ((1, 0)::cell) - snd (food ?b)\<bar>"
      by (intro conjI) (rule e4 i1 lt)+
    then show ?thesis by (intro exI)
  qed
  have n1: "\<bar>(1::int) + (- 1) - 0\<bar> + \<bar>(1::int) + 0 - 2\<bar> = 1" by simp
  have n3: "\<bar>(1::int) + 1 - 0\<bar> + \<bar>(1::int) + 0 - 2\<bar> = 3" by simp
  show ?thesis
    by (intro conjI) (rule b sf fd ret tie bb db sb fb rb later n1 n3)+
qed

section \<open>Segments stay apart when a snake moves\<close>

lemma in_allSegments_iff:
  "c \<in> set (allSegments ss) \<longleftrightarrow> (\<exists>k<length ss. c \<in> set (body (ss ! k)))"
proof -
  have "c \<in> set (allSegments ss) \<longleftrightarrow> (\<exists>sn\<in>set ss. c \<in> set (body sn))"
    by (simp add: allSegments_def)
  also have "\<dots> \<longleftrightarrow> (\<exists>k<length ss. c \<in> set (body (ss ! k)))"
    by (metis in_set_conv_nth)
  finally show ?thesis .
qed

lemma allSegments_Cons: "allSegments (a # ss) = body a @ allSegments ss"
  by (simp add: allSegments_def)

lemma distinct_allSegments_iff:
  "distinct (allSegments ss) \<longleftrightarrow>
     (\<forall>k<length ss. distinct (body (ss ! k)))
     \<and> (\<forall>k<length ss. \<forall>l<length ss. k \<noteq> l \<longrightarrow> set (body (ss ! k)) \<inter> set (body (ss ! l)) = {})"
proof (induction ss)
  case Nil
  then show ?case by (simp add: allSegments_def)
next
  case (Cons a ss)
  have disj: "set (body a) \<inter> set (allSegments ss) = {}
        \<longleftrightarrow> (\<forall>l<length ss. set (body a) \<inter> set (body (ss ! l)) = {})"
    unfolding disjoint_iff in_allSegments_iff by blast
  show ?case
  proof
    assume d: "distinct (allSegments (a # ss))"
    then have da: "distinct (body a)" and ds: "distinct (allSegments ss)"
      and dj: "\<forall>l<length ss. set (body a) \<inter> set (body (ss ! l)) = {}"
      using disj by (simp_all add: allSegments_Cons)
    from ds Cons.IH have
      i1: "\<forall>k<length ss. distinct (body (ss ! k))" and
      i2: "\<forall>k<length ss. \<forall>l<length ss. k \<noteq> l \<longrightarrow> set (body (ss ! k)) \<inter> set (body (ss ! l)) = {}"
      by simp_all
    have "\<forall>k<length (a # ss). distinct (body ((a # ss) ! k))"
      using da i1 by (auto simp: nth_Cons split: nat.splits)
    moreover have "\<forall>k<length (a # ss). \<forall>l<length (a # ss). k \<noteq> l \<longrightarrow>
        set (body ((a # ss) ! k)) \<inter> set (body ((a # ss) ! l)) = {}"
    proof (intro allI impI)
      fix k l assume kl: "k < length (a # ss)" "l < length (a # ss)" "k \<noteq> l"
      show "set (body ((a # ss) ! k)) \<inter> set (body ((a # ss) ! l)) = {}"
      proof (cases k)
        case 0
        with kl obtain l' where "l = Suc l'" "l' < length ss" by (cases l) auto
        with 0 dj show ?thesis by simp
      next
        case (Suc k')
        show ?thesis
        proof (cases l)
          case 0
          with Suc kl dj show ?thesis by (simp add: Int_commute)
        next
          case (Suc l')
          with \<open>k = Suc k'\<close> kl i2 show ?thesis by simp
        qed
      qed
    qed
    ultimately show "(\<forall>k<length (a # ss). distinct (body ((a # ss) ! k)))
     \<and> (\<forall>k<length (a # ss). \<forall>l<length (a # ss). k \<noteq> l \<longrightarrow>
           set (body ((a # ss) ! k)) \<inter> set (body ((a # ss) ! l)) = {})" by blast
  next
    assume r: "(\<forall>k<length (a # ss). distinct (body ((a # ss) ! k)))
     \<and> (\<forall>k<length (a # ss). \<forall>l<length (a # ss). k \<noteq> l \<longrightarrow>
           set (body ((a # ss) ! k)) \<inter> set (body ((a # ss) ! l)) = {})"
    then have r1: "\<And>k. k < Suc (length ss) \<Longrightarrow> distinct (body ((a # ss) ! k))"
      and r2: "\<And>k l. k < Suc (length ss) \<Longrightarrow> l < Suc (length ss) \<Longrightarrow> k \<noteq> l \<Longrightarrow>
           set (body ((a # ss) ! k)) \<inter> set (body ((a # ss) ! l)) = {}"
      by simp_all
    have da: "distinct (body a)" using r1 [of 0] by simp
    have i1: "\<forall>k<length ss. distinct (body (ss ! k))"
      using r1 [of "Suc k" for k] by simp
    have i2: "\<forall>k<length ss. \<forall>l<length ss. k \<noteq> l \<longrightarrow> set (body (ss ! k)) \<inter> set (body (ss ! l)) = {}"
      using r2 [of "Suc k" "Suc l" for k l] by simp
    have dj: "\<forall>l<length ss. set (body a) \<inter> set (body (ss ! l)) = {}"
      using r2 [of 0 "Suc l" for l] by simp
    from i1 i2 Cons.IH have "distinct (allSegments ss)" by simp
    with da dj disj show "distinct (allSegments (a # ss))" by (simp add: allSegments_Cons)
  qed
qed


lemma boardOk_iff:
  "boardOk ss f \<longleftrightarrow>
     (\<forall>k<length ss. distinct (body (ss ! k)) \<and> f \<notin> set (body (ss ! k)) \<and> body (ss ! k) \<noteq> [])
     \<and> (\<forall>k<length ss. \<forall>l<length ss. k \<noteq> l \<longrightarrow> set (body (ss ! k)) \<inter> set (body (ss ! l)) = {})"
proof -
  have "(\<forall>sn\<in>set ss. body sn \<noteq> []) \<longleftrightarrow> (\<forall>k<length ss. body (ss ! k) \<noteq> [])"
    by (metis in_set_conv_nth)
  then show ?thesis
    unfolding boardOk_def distinct_allSegments_iff in_allSegments_iff by blast
qed

lemma boardOk_cong: "map body ss = map body ss' \<Longrightarrow> boardOk ss f = boardOk ss' f"
proof -
  assume eq: "map body ss = map body ss'"
  have ne: "(\<forall>sn\<in>set ss. body sn \<noteq> []) \<longleftrightarrow> [] \<notin> body ` set ss" for ss :: "snake list"
    by (simp add: image_iff) metis
  from eq have "body ` set ss = body ` set ss'" by (metis set_map)
  with eq show ?thesis unfolding boardOk_def allSegments_def ne by simp
qed

lemma map_body_set_direction:
  "map body (ss[i := (ss ! i)\<lparr>direction := d\<rparr>]) = map body ss"
  by (cases "i < length ss") (simp_all add: map_update list_update_same_conv list_update_beyond)

lemma map_body_set_controlled:
  "map body (ss[i := (ss ! i)\<lparr>userControlled := b\<rparr>]) = map body ss"
  by (cases "i < length ss") (simp_all add: map_update list_update_same_conv list_update_beyond)

lemma boardOk_move:
  assumes ok: "boardOk ss f" and i: "i < length ss"
    and free: "\<not> isCellOccupied ss (fst new) (snd new) (Some i)"
    and nf: "new \<noteq> f"
  shows "boardOk (ss[i := (ss ! i)\<lparr>body := butlast (new # body (ss ! i))\<rparr>]) f"
proof -
  let ?b = "body (ss ! i)"
  let ?ss' = "ss[i := (ss ! i)\<lparr>body := butlast (new # ?b)\<rparr>]"
  from ok have
    d: "\<And>k. k < length ss \<Longrightarrow> distinct (body (ss ! k))" and
    fo: "\<And>k. k < length ss \<Longrightarrow> f \<notin> set (body (ss ! k))" and
    ne: "\<And>k. k < length ss \<Longrightarrow> body (ss ! k) \<noteq> []" and
    dj: "\<And>k l. k < length ss \<Longrightarrow> l < length ss \<Longrightarrow> k \<noteq> l
           \<Longrightarrow> set (body (ss ! k)) \<inter> set (body (ss ! l)) = {}"
    unfolding boardOk_iff by blast+
  from free have fr: "\<And>k. k < length ss \<Longrightarrow> new \<notin> set (visibleBody ss (Some i) k)"
    by (cases new) (auto simp: isCellOccupied_iff)
  have nb: "butlast (new # ?b) = new # butlast ?b" using ne [OF i] by simp
  have own: "new \<notin> set (butlast ?b)" using fr [OF i] by (simp add: visibleBody_def)
  have oth: "\<And>k. k < length ss \<Longrightarrow> k \<noteq> i \<Longrightarrow> new \<notin> set (body (ss ! k))"
  proof -
    fix k assume "k < length ss" "k \<noteq> i"
    with fr [of k] show "new \<notin> set (body (ss ! k))" by (simp add: visibleBody_def)
  qed
  have sub: "set (butlast ?b) \<subseteq> set ?b" by (auto dest: in_set_butlastD)
  have bi: "body (?ss' ! i) = new # butlast ?b" using i nb by simp
  have bk: "\<And>k. k \<noteq> i \<Longrightarrow> body (?ss' ! k) = body (ss ! k)" by simp
  have p1: "\<forall>k<length ?ss'. distinct (body (?ss' ! k)) \<and> f \<notin> set (body (?ss' ! k))
              \<and> body (?ss' ! k) \<noteq> []"
  proof (intro allI impI)
    fix k assume k: "k < length ?ss'"
    show "distinct (body (?ss' ! k)) \<and> f \<notin> set (body (?ss' ! k)) \<and> body (?ss' ! k) \<noteq> []"
    proof (cases "k = i")
      case True
      have "distinct (butlast ?b)" using d [OF i] by (rule distinct_butlast)
      moreover have "f \<notin> set (butlast ?b)" using fo [OF i] sub by blast
      ultimately show ?thesis using True bi own nf by auto
    next
      case False
      with k d fo ne bk show ?thesis by simp
    qed
  qed
  have p2: "\<forall>k<length ?ss'. \<forall>l<length ?ss'. k \<noteq> l
              \<longrightarrow> set (body (?ss' ! k)) \<inter> set (body (?ss' ! l)) = {}"
  proof (intro allI impI)
    fix k l assume kl: "k < length ?ss'" "l < length ?ss'" "k \<noteq> l"
    then have kl': "k < length ss" "l < length ss" by simp_all
    consider "k = i" | "l = i" | "k \<noteq> i" "l \<noteq> i" by blast
    then show "set (body (?ss' ! k)) \<inter> set (body (?ss' ! l)) = {}"
    proof cases
      case 1
      with kl have li: "l \<noteq> i" by simp
      have "set ?b \<inter> set (body (ss ! l)) = {}" using dj [OF i kl'(2)] li by blast
      with sub oth [OF kl'(2) li] 1 li bi bk show ?thesis by auto
    next
      case 2
      with kl have ki: "k \<noteq> i" by simp
      have "set (body (ss ! k)) \<inter> set ?b = {}" using dj [OF kl'(1) i] ki by blast
      with sub oth [OF kl'(1) ki] 2 ki bi bk show ?thesis by auto
    next
      case 3
      with kl' kl(3) dj bk show ?thesis by simp
    qed
  qed
  from p1 p2 show ?thesis unfolding boardOk_iff by blast
qed

lemma boardOk_grow:
  assumes ok: "boardOk ss f" and i: "i < length ss"
    and f': "f' \<notin> set (allSegments (ss[i := (ss ! i)\<lparr>body := f # body (ss ! i)\<rparr>]))"
  shows "boardOk (ss[i := (ss ! i)\<lparr>body := f # body (ss ! i)\<rparr>]) f'"
proof -
  let ?b = "body (ss ! i)"
  let ?ss' = "ss[i := (ss ! i)\<lparr>body := f # ?b\<rparr>]"
  from ok have
    d: "\<And>k. k < length ss \<Longrightarrow> distinct (body (ss ! k))" and
    fo: "\<And>k. k < length ss \<Longrightarrow> f \<notin> set (body (ss ! k))" and
    ne: "\<And>k. k < length ss \<Longrightarrow> body (ss ! k) \<noteq> []" and
    dj: "\<And>k l. k < length ss \<Longrightarrow> l < length ss \<Longrightarrow> k \<noteq> l
           \<Longrightarrow> set (body (ss ! k)) \<inter> set (body (ss ! l)) = {}"
    unfolding boardOk_iff by blast+
  from f' have f'k: "\<And>k. k < length ?ss' \<Longrightarrow> f' \<notin> set (body (?ss' ! k))"
    unfolding in_allSegments_iff by blast
  have bi: "body (?ss' ! i) = f # ?b" using i by simp
  have bk: "\<And>k. k \<noteq> i \<Longrightarrow> body (?ss' ! k) = body (ss ! k)" by simp
  have p1: "\<forall>k<length ?ss'. distinct (body (?ss' ! k)) \<and> f' \<notin> set (body (?ss' ! k))
              \<and> body (?ss' ! k) \<noteq> []"
  proof (intro allI impI)
    fix k assume k: "k < length ?ss'"
    show "distinct (body (?ss' ! k)) \<and> f' \<notin> set (body (?ss' ! k)) \<and> body (?ss' ! k) \<noteq> []"
    proof (cases "k = i")
      case True
      with d [OF i] fo [OF i] bi f'k [OF k] show ?thesis by auto
    next
      case False
      with k d ne bk f'k [OF k] show ?thesis by simp
    qed
  qed
  have p2: "\<forall>k<length ?ss'. \<forall>l<length ?ss'. k \<noteq> l
              \<longrightarrow> set (body (?ss' ! k)) \<inter> set (body (?ss' ! l)) = {}"
  proof (intro allI impI)
    fix k l assume kl: "k < length ?ss'" "l < length ?ss'" "k \<noteq> l"
    then have kl': "k < length ss" "l < length ss" by simp_all
    consider "k = i" | "l = i" | "k \<noteq> i" "l \<noteq> i" by blast
    then show "set (body (?ss' ! k)) \<inter> set (body (?ss' ! l)) = {}"
    proof cases
      case 1
      with kl have li: "l \<noteq> i" by simp
      have "set ?b \<inter> set (body (ss ! l)) = {}" using dj [OF i kl'(2)] li by blast
      with fo [OF kl'(2)] 1 li bi bk show ?thesis by auto
    next
      case 2
      with kl have ki: "k \<noteq> i" by simp
      have "set (body (ss ! k)) \<inter> set ?b = {}" using dj [OF kl'(1) i] ki by blast
      with fo [OF kl'(1)] 2 ki bi bk show ?thesis by auto
    next
      case 3
      with kl' kl(3) dj bk show ?thesis by simp
    qed
  qed
  from p1 p2 show ?thesis unfolding boardOk_iff by blast
qed

section \<open>One snake moves\<close>

lemma generateFood_result_Inr:
  assumes "generateFood_result s = Inr s'"
  shows "s' = s\<lparr>drawn := drawn s', food := food s'\<rparr>"
    and "food s' \<notin> set (allSegments (snakes s))"
proof -
  from assms have g: "generateFood s = Some s'"
    by (simp add: generateFood_result_def split: option.splits)
  from generateFood_Some [OF g] show "s' = s\<lparr>drawn := drawn s', food := food s'\<rparr>" by blast
  from generateFood_Some [OF g] show "food s' \<notin> set (allSegments (snakes s))"
    by (simp add: cellTaken_iff)
qed

lemma generateFood_result_not_TypeError: "generateFood_result s \<noteq> Inl TypeError"
  by (simp add: generateFood_result_def split: option.splits)

lemma commitMove_no_food:
  "new \<noteq> food s \<Longrightarrow>
   commitMove i new s =
     Inr (s\<lparr>snakes := (snakes s)[i := (snakes s ! i)\<lparr>body := butlast (new # body (snakes s ! i))\<rparr>]\<rparr>)"
proof -
  assume "new \<noteq> food s"
  then have "\<not> (fst new = fst (food s) \<and> snd new = snd (food s))"
    by (simp add: prod_eq_iff)
  then show ?thesis unfolding commitMove_def Let_def by (rule if_not_P)
qed

lemma commitMove_food:
  assumes "commitMove i (food s) s = Inr s'"
  shows "snakes s' = (snakes s)[i := (snakes s ! i)\<lparr>body := food s # body (snakes s ! i)\<rparr>]"
    and "food s' \<notin> set (allSegments (snakes s'))"
    and "s' = s\<lparr>snakes := snakes s', food := food s', drawn := drawn s'\<rparr>"
proof -
  let ?s1 = "s\<lparr>snakes := (snakes s)[i := (snakes s ! i)\<lparr>body := food s # body (snakes s ! i)\<rparr>]\<rparr>"
  from assms have g: "generateFood_result ?s1 = Inr s'"
    by (simp add: commitMove_def Let_def)
  note r = generateFood_result_Inr [OF g]
  from r(1) have sn: "snakes s' = snakes ?s1" by (metis state.select_convs(3) state.surjective state.update_convs(4,11))
  then show "snakes s' = (snakes s)[i := (snakes s ! i)\<lparr>body := food s # body (snakes s ! i)\<rparr>]"
    by simp
  from r(2) sn show "food s' \<notin> set (allSegments (snakes s'))" by simp
  from r(1) show "s' = s\<lparr>snakes := snakes s', food := food s', drawn := drawn s'\<rparr>"
    by (cases s, cases s') simp
qed


lemma commitMove_not_TypeError: "commitMove i new s \<noteq> Inl TypeError"
  by (simp add: commitMove_def Let_def generateFood_result_not_TypeError)

text \<open>A committed move changes the body of snake \<open>i\<close>, the food and the number of draws,
  and nothing else.\<close>

lemma commitMove_frame:
  assumes "commitMove i new s = Inr s'"
  shows "s' = s\<lparr>snakes := snakes s', food := food s', drawn := drawn s'\<rparr>"
    and "\<exists>b. snakes s' = (snakes s)[i := (snakes s ! i)\<lparr>body := b\<rparr>]"
proof -
  show "s' = s\<lparr>snakes := snakes s', food := food s', drawn := drawn s'\<rparr>"
  proof (cases "new = food s")
    case True
    with assms commitMove_food(3) show ?thesis by blast
  next
    case False
    from assms commitMove_no_food [OF False, of i] show ?thesis by auto
  qed
  show "\<exists>b. snakes s' = (snakes s)[i := (snakes s ! i)\<lparr>body := b\<rparr>]"
  proof (cases "new = food s")
    case True
    with assms commitMove_food(1) show ?thesis by blast
  next
    case False
    from assms commitMove_no_food [OF False, of i] show ?thesis by auto
  qed
qed

lemma commitMove_ok:
  assumes c: "commitMove i new s = Inr s'"
    and i: "i < length (snakes s)"
    and ok: "boardOk (snakes s) (food s)"
    and free: "\<not> isCellOccupied (snakes s) (fst new) (snd new) (Some i)"
  shows "boardOk (snakes s') (food s')"
proof (cases "new = food s")
  case True
  with c have c': "commitMove i (food s) s = Inr s'" by simp
  note r = commitMove_food [OF c']
  have "food s' \<notin> set (allSegments
      ((snakes s)[i := (snakes s ! i)\<lparr>body := food s # body (snakes s ! i)\<rparr>]))"
    using r(2) unfolding r(1) .
  from boardOk_grow [OF ok i this] show ?thesis unfolding r(1) .
next
  case False
  from c commitMove_no_food [OF False, of i]
  have "snakes s' = (snakes s)[i := (snakes s ! i)\<lparr>body := butlast (new # body (snakes s ! i))\<rparr>]"
    and "food s' = food s" by auto
  with boardOk_move [OF ok i free False] show ?thesis by simp
qed

lemma getNextDirection_Some:
  assumes "getNextDirection s i = Inr (Some d)"
  shows "\<exists>h rest. body (snakes s ! i) = h # rest \<and> d \<in> set (safeDirections s i h)"
proof (cases "body (snakes s ! i)")
  case Nil
  with assms show ?thesis by (simp add: getNextDirection_def)
next
  case (Cons h rest)
  let ?safe = "safeDirections s i h"
  from assms Cons have ne: "?safe \<noteq> []" and d: "d = hd (sort_key (foodDistance s h) ?safe)"
    by (auto simp: getNextDirection_def Let_def split: if_splits)
  from ne have "sort_key (foodDistance s h) ?safe \<noteq> []" by (metis length_sort length_0_conv)
  then have "d \<in> set (sort_key (foodDistance s h) ?safe)" unfolding d by (rule hd_in_set)
  then have "d \<in> set ?safe" by simp
  with Cons show ?thesis by blast
qed

lemma getNextDirection_not_TypeError:
  "body (snakes s ! i) \<noteq> [] \<Longrightarrow> getNextDirection s i \<noteq> Inl TypeError"
  by (cases "body (snakes s ! i)") (auto simp: getNextDirection_def Let_def)

lemma safeDirections_free:
  "d \<in> set (safeDirections s i h) \<Longrightarrow>
     \<not> isCellOccupied (snakes s) (fst h + fst d) (snd h + snd d) (Some i)
     \<and> \<not> outOfBounds s (fst h + fst d) (snd h + snd d)
     \<and> d \<in> set (possibleDirections (snakes s ! i))"
  by (simp add: safeDirections_def Let_def)

text \<open>What one iteration of the loop over the snakes can do.\<close>

lemma moveSnake_cases:
  assumes m: "moveSnake i (s, a) = Inr (s', a')"
  obtains
    (blocked) "s' = s" "a' = a"
  | (user) h rest where
      "body (snakes s ! i) = h # rest" "userControlled (snakes s ! i)"
      "\<not> outOfBounds s (fst h + fst (direction (snakes s ! i))) (snd h + snd (direction (snakes s ! i)))"
      "\<not> isCellOccupied (snakes s) (fst h + fst (direction (snakes s ! i)))
           (snd h + snd (direction (snakes s ! i))) (Some i)"
      "commitMove i (fst h + fst (direction (snakes s ! i)), snd h + snd (direction (snakes s ! i))) s
         = Inr s'"
      "a' = True"
  | (ai) h rest d s1 where
      "body (snakes s ! i) = h # rest" "\<not> userControlled (snakes s ! i)"
      "getNextDirection s i = Inr (Some d)"
      "commitMove i (fst h + fst d, snd h + snd d) s = Inr s1"
      "s' = s1\<lparr>snakes := (snakes s1)[i := (snakes s1 ! i)\<lparr>direction := d\<rparr>]\<rparr>"
      "a' = True"
proof (cases "body (snakes s ! i)")
  case Nil
  with m show ?thesis by (simp add: moveSnake_def Let_def)
next
  case (Cons h rest)
  show ?thesis
  proof (cases "userControlled (snakes s ! i)")
    case True
    let ?nh = "(fst h + fst (direction (snakes s ! i)), snd h + snd (direction (snakes s ! i)))"
    show ?thesis
    proof (cases "outOfBounds s (fst ?nh) (snd ?nh) \<or> isCellOccupied (snakes s) (fst ?nh) (snd ?nh) (Some i)")
      case blk: True
      with m Cons True have "s' = s" "a' = a" by (auto simp: moveSnake_def Let_def)
      then show ?thesis by (rule blocked)
    next
      case free: False
      with m Cons True have "commitMove i ?nh s = Inr s'" "a' = True"
        by (auto simp: moveSnake_def Let_def split: sum.splits)
      with Cons True free show ?thesis by (intro user [of h rest]) auto
    qed
  next
    case False
    show ?thesis
    proof (cases "getNextDirection s i")
      case (Inl e)
      with m Cons False show ?thesis by (simp add: moveSnake_def Let_def)
    next
      case (Inr r)
      show ?thesis
      proof (cases r)
        case None
        with m Cons False Inr have "s' = s" "a' = a" by (auto simp: moveSnake_def Let_def)
        then show ?thesis by (rule blocked)
      next
        case (Some d)
        with m Cons False Inr obtain s1 where
          "commitMove i (fst h + fst d, snd h + snd d) s = Inr s1"
          "s' = s1\<lparr>snakes := (snakes s1)[i := (snakes s1 ! i)\<lparr>direction := d\<rparr>]\<rparr>" "a' = True"
          by (auto simp: moveSnake_def Let_def split: sum.splits)
        with Cons False Inr Some show ?thesis by (intro ai [of h rest d s1]) auto
      qed
    qed
  qed
qed


lemma movedOnly_refl: "movedOnly J s s"
  by (simp add: movedOnly_def)

lemma movedOnly_trans:
  assumes "movedOnly J s s'" "movedOnly K s' s''"
  shows "movedOnly (J \<union> K) s s''"
proof -
  from assms have g1: "s' = s\<lparr>snakes := snakes s', food := food s', drawn := drawn s'\<rparr>"
    and g2: "s'' = s'\<lparr>snakes := snakes s'', food := food s'', drawn := drawn s''\<rparr>"
    and l1: "length (snakes s') = length (snakes s)"
    and l2: "length (snakes s'') = length (snakes s')"
    and r1: "\<And>k. k < length (snakes s) \<Longrightarrow>
           snakes s' ! k = (snakes s ! k)\<lparr>body := body (snakes s' ! k),
                                            direction := direction (snakes s' ! k)\<rparr>"
    and r2: "\<And>k. k < length (snakes s) \<Longrightarrow>
           snakes s'' ! k = (snakes s' ! k)\<lparr>body := body (snakes s'' ! k),
                                            direction := direction (snakes s'' ! k)\<rparr>"
    and u1: "\<And>k. k < length (snakes s) \<Longrightarrow> k \<notin> J \<Longrightarrow> snakes s' ! k = snakes s ! k"
    and u2: "\<And>k. k < length (snakes s) \<Longrightarrow> k \<notin> K \<Longrightarrow> snakes s'' ! k = snakes s' ! k"
    by (simp_all add: movedOnly_def)
  have "s'' = s\<lparr>snakes := snakes s'', food := food s'', drawn := drawn s''\<rparr>"
    by (subst g2, subst g1) simp
  moreover have "length (snakes s'') = length (snakes s)" using l1 l2 by simp
  moreover have "\<forall>k<length (snakes s).
           snakes s'' ! k = (snakes s ! k)\<lparr>body := body (snakes s'' ! k),
                                            direction := direction (snakes s'' ! k)\<rparr>"
  proof (intro allI impI)
    fix k assume k: "k < length (snakes s)"
    show "snakes s'' ! k = (snakes s ! k)\<lparr>body := body (snakes s'' ! k),
                                            direction := direction (snakes s'' ! k)\<rparr>"
      by (subst r2 [OF k], subst r1 [OF k]) simp
  qed
  moreover have "\<forall>k<length (snakes s). k \<notin> J \<union> K \<longrightarrow> snakes s'' ! k = snakes s ! k"
    using u1 u2 by simp
  ultimately show ?thesis unfolding movedOnly_def by blast
qed

lemma movedOnly_update:
  assumes g: "s' = s\<lparr>snakes := snakes s', food := food s', drawn := drawn s'\<rparr>"
    and u: "snakes s' = (snakes s)[i := (snakes s ! i)\<lparr>body := b, direction := d\<rparr>]"
  shows "movedOnly {i} s s'"
proof -
  have "length (snakes s') = length (snakes s)" using u by simp
  moreover have "\<forall>k<length (snakes s).
           snakes s' ! k = (snakes s ! k)\<lparr>body := body (snakes s' ! k),
                                            direction := direction (snakes s' ! k)\<rparr>"
  proof (intro allI impI)
    fix k assume k: "k < length (snakes s)"
    show "snakes s' ! k = (snakes s ! k)\<lparr>body := body (snakes s' ! k),
                                            direction := direction (snakes s' ! k)\<rparr>"
    proof (cases "k = i")
      case True
      with k show ?thesis by (simp add: u)
    next
      case False
      then show ?thesis by (simp add: u)
    qed
  qed
  moreover have "\<forall>k<length (snakes s). k \<notin> {i} \<longrightarrow> snakes s' ! k = snakes s ! k"
    by (simp add: u)
  ultimately show ?thesis using g unfolding movedOnly_def by blast
qed

lemma moveSnake_movedOnly:
  assumes m: "moveSnake i (s, a) = Inr (s', a')"
  shows "movedOnly {i} s s'"
  using m
proof (cases rule: moveSnake_cases)
  case blocked
  then show ?thesis by (simp add: movedOnly_refl)
next
  case (user h rest)
  from commitMove_frame [OF user(5)] obtain b where
    g: "s' = s\<lparr>snakes := snakes s', food := food s', drawn := drawn s'\<rparr>"
    and u: "snakes s' = (snakes s)[i := (snakes s ! i)\<lparr>body := b\<rparr>]" by blast
  from u have "snakes s' = (snakes s)[i := (snakes s ! i)\<lparr>body := b,
      direction := direction (snakes s ! i)\<rparr>]" by simp
  with g show ?thesis by (rule movedOnly_update)
next
  case (ai h rest d s1)
  from commitMove_frame [OF ai(4)] obtain b where
    g: "s1 = s\<lparr>snakes := snakes s1, food := food s1, drawn := drawn s1\<rparr>"
    and u: "snakes s1 = (snakes s)[i := (snakes s ! i)\<lparr>body := b\<rparr>]" by blast
  have u': "snakes s' = (snakes s)[i := (snakes s ! i)\<lparr>body := b, direction := d\<rparr>]"
    unfolding ai(5) u by (cases "i < length (snakes s)") (simp_all add: list_update_beyond)
  have g': "s' = s\<lparr>snakes := snakes s', food := food s', drawn := drawn s'\<rparr>"
    unfolding ai(5) by (subst g) simp
  from g' u' show ?thesis by (rule movedOnly_update)
qed

lemma moveSnake_ok:
  assumes m: "moveSnake i (s, a) = Inr (s', a')"
    and i: "i < length (snakes s)"
    and ok: "boardOk (snakes s) (food s)"
  shows "boardOk (snakes s') (food s')"
  using m
proof (cases rule: moveSnake_cases)
  case blocked
  with ok show ?thesis by simp
next
  case (user h rest)
  from commitMove_ok [OF user(5) i ok] user(4) show ?thesis by simp
next
  case (ai h rest d s1)
  from getNextDirection_Some [OF ai(3)] ai(1) have "d \<in> set (safeDirections s i h)" by simp
  from safeDirections_free [OF this]
  have "\<not> isCellOccupied (snakes s) (fst h + fst d) (snd h + snd d) (Some i)" by blast
  with commitMove_ok [OF ai(4) i ok] have "boardOk (snakes s1) (food s1)" by simp
  moreover have "map body (snakes s') = map body (snakes s1)" "food s' = food s1"
    unfolding ai(5) by (simp_all add: map_body_set_direction)
  ultimately show ?thesis using boardOk_cong by metis
qed

lemma moveSnake_not_TypeError:
  assumes "body (snakes s ! i) \<noteq> []"
  shows "moveSnake i (s, a) \<noteq> Inl TypeError"
proof -
  from assms obtain h rest where b: "body (snakes s ! i) = h # rest"
    by (cases "body (snakes s ! i)") auto
  have g: "getNextDirection s i \<noteq> Inl TypeError"
    using assms by (rule getNextDirection_not_TypeError)
  show ?thesis
    using b g commitMove_not_TypeError
    by (auto simp: moveSnake_def Let_def split: sum.splits option.splits failure.splits)
qed

section \<open>A whole tick, a key, the checkbox\<close>

lemma movesLoop_movedOnly:
  "movesLoop js (s, a) = Inr (s', a') \<Longrightarrow> movedOnly (set js) s s'"
proof (induction js arbitrary: s a)
  case Nil
  then show ?case by (simp add: movedOnly_refl)
next
  case (Cons j js)
  from Cons.prems obtain s1 a1 where
    m: "moveSnake j (s, a) = Inr (s1, a1)" and r: "movesLoop js (s1, a1) = Inr (s', a')"
    by (auto split: sum.splits)
  from movedOnly_trans [OF moveSnake_movedOnly [OF m] Cons.IH [OF r]]
  show ?case by simp
qed

lemma movesLoop_ok:
  "movesLoop js (s, a) = Inr (s', a') \<Longrightarrow> \<forall>j\<in>set js. j < length (snakes s)
   \<Longrightarrow> boardOk (snakes s) (food s) \<Longrightarrow> boardOk (snakes s') (food s')"
proof (induction js arbitrary: s a)
  case Nil
  then show ?case by simp
next
  case (Cons j js)
  from Cons.prems(1) obtain s1 a1 where
    m: "moveSnake j (s, a) = Inr (s1, a1)" and r: "movesLoop js (s1, a1) = Inr (s', a')"
    by (auto split: sum.splits)
  from Cons.prems(2) have j: "j < length (snakes s)" by simp
  have ok1: "boardOk (snakes s1) (food s1)" using m j Cons.prems(3) by (rule moveSnake_ok)
  have "length (snakes s1) = length (snakes s)"
    using moveSnake_movedOnly [OF m] by (simp add: movedOnly_def)
  with Cons.prems(2) have "\<forall>j\<in>set js. j < length (snakes s1)" by simp
  from Cons.IH [OF r this ok1] show ?case .
qed

lemma boardOk_body: "boardOk ss f \<Longrightarrow> k < length ss \<Longrightarrow> body (ss ! k) \<noteq> []"
  by (simp add: boardOk_iff)

lemma movesLoop_not_TypeError:
  "\<forall>j\<in>set js. j < length (snakes s) \<Longrightarrow> boardOk (snakes s) (food s)
   \<Longrightarrow> movesLoop js (s, a) \<noteq> Inl TypeError"
proof (induction js arbitrary: s a)
  case Nil
  then show ?case by simp
next
  case (Cons j js)
  from Cons.prems(1) have j: "j < length (snakes s)" by simp
  have nt: "moveSnake j (s, a) \<noteq> Inl TypeError"
    using boardOk_body [OF Cons.prems(2) j] by (rule moveSnake_not_TypeError)
  show ?case
  proof (cases "moveSnake j (s, a)")
    case (Inl e)
    with nt show ?thesis by simp
  next
    case (Inr sa)
    obtain s1 a1 where sa: "sa = (s1, a1)" by (cases sa)
    from Inr sa have m: "moveSnake j (s, a) = Inr (s1, a1)" by simp
    have ok1: "boardOk (snakes s1) (food s1)" using m j Cons.prems(2) by (rule moveSnake_ok)
    have "length (snakes s1) = length (snakes s)"
      using moveSnake_movedOnly [OF m] by (simp add: movedOnly_def)
    with Cons.prems(1) have "\<forall>j\<in>set js. j < length (snakes s1)" by simp
    from Cons.IH [OF this ok1] m show ?thesis by simp
  qed
qed

lemma findIndex_Some:
  "findIndex P xs = Some u \<Longrightarrow> u < length xs \<and> P (xs ! u) \<and> (\<forall>k<u. \<not> P (xs ! k))"
proof (induction xs arbitrary: u)
  case Nil
  then show ?case by simp
next
  case (Cons a xs)
  show ?case
  proof (cases "P a")
    case True
    with Cons.prems show ?thesis by simp
  next
    case False
    with Cons.prems obtain u' where u': "findIndex P xs = Some u'" "u = Suc u'" by auto
    from Cons.IH [OF u'(1)] False u'(2) show ?thesis
      by (auto simp: nth_Cons split: nat.splits)
  qed
qed

lemma findIndex_None: "findIndex P xs = None \<longleftrightarrow> (\<forall>a\<in>set xs. \<not> P a)"
  by (induction xs) auto

lemma gameOverCheck_board:
  "gameOverCheck (s, a) = Inr s' \<Longrightarrow> snakes s' = snakes s \<and> food s' = food s"
  by (auto simp: gameOverCheck_def Let_def split: option.splits list.splits if_splits)

lemma gameOverCheck_not_TypeError:
  assumes "boardOk (snakes s) (food s)"
  shows "gameOverCheck (s, a) \<noteq> Inl TypeError"
proof -
  have "body (snakes s ! u) \<noteq> []" if "findIndex userControlled (snakes s) = Some u" for u
    using findIndex_Some [OF that] boardOk_body [OF assms] by blast
  then show ?thesis
    by (auto simp: gameOverCheck_def Let_def split: option.splits list.splits)
qed

lemma gameLoop_ok:
  assumes "gameLoop s = Inr s'" "boardOk (snakes s) (food s)"
  shows "boardOk (snakes s') (food s')"
proof -
  from assms(1) obtain s1 a1 where
    l: "movesLoop [0..<length (snakes s)] (s, False) = Inr (s1, a1)"
    and g: "gameOverCheck (s1, a1) = Inr s'"
    by (auto simp: gameLoop_def split: sum.splits)
  have "boardOk (snakes s1) (food s1)" using movesLoop_ok [OF l _ assms(2)] by simp
  with gameOverCheck_board [OF g] show ?thesis by simp
qed

lemma gameLoop_not_TypeError:
  assumes "boardOk (snakes s) (food s)"
  shows "gameLoop s \<noteq> Inl TypeError"
proof (cases "movesLoop [0..<length (snakes s)] (s, False)")
  case (Inl e)
  moreover have "movesLoop [0..<length (snakes s)] (s, False) \<noteq> Inl TypeError"
    using assms by (intro movesLoop_not_TypeError) simp_all
  ultimately show ?thesis by (simp add: gameLoop_def)
next
  case (Inr sa)
  obtain s1 a1 where sa: "sa = (s1, a1)" by (cases sa)
  with Inr have l: "movesLoop [0..<length (snakes s)] (s, False) = Inr (s1, a1)" by simp
  have "boardOk (snakes s1) (food s1)" using movesLoop_ok [OF l _ assms] by simp
  from gameOverCheck_not_TypeError [OF this] l show ?thesis by (simp add: gameLoop_def)
qed

lemma keydown_board:
  "map body (snakes (keydown k s)) = map body (snakes s) \<and> food (keydown k s) = food s"
  by (auto simp: keydown_def Let_def map_body_set_direction split: option.splits)

lemma checkboxChange_board:
  "map body (snakes (checkboxChange b s)) = map body (snakes s)
   \<and> food (checkboxChange b s) = food s"
  by (auto simp: checkboxChange_def setControlled_def Let_def map_body_set_controlled
      split: option.splits)

section \<open>Starting a game; runs keep the board in order\<close>

lemma randomPosition_Some:
  assumes "randomPosition s = Some r"
  shows "snd r = s\<lparr>drawn := drawn (snd r)\<rparr> \<and> fst r \<notin> set (allSegments (snakes s))"
proof (rule randomPosition.raw_induct
    [where P = "\<lambda>s r. snd r = s\<lparr>drawn := drawn (snd r)\<rparr>
                  \<and> fst r \<notin> set (allSegments (snakes s))", OF _ assms])
  fix rp :: "state \<Rightarrow> (cell \<times> state) option" and s r
  assume IH: "\<And>t q. rp t = Some q \<Longrightarrow>
        snd q = t\<lparr>drawn := drawn (snd q)\<rparr> \<and> fst q \<notin> set (allSegments (snakes t))"
    and eq: "(let px = \<lfloor>rnd s (drawn s) * gridWidth s\<rfloor>;
          py = \<lfloor>rnd s (drawn s + 1) * gridHeight s\<rfloor>;
          s1 = s\<lparr>drawn := drawn s + 2\<rparr>
      in if cellTaken (snakes s) px py then rp s1 else Some ((px, py), s1)) = Some r"
  show "snd r = s\<lparr>drawn := drawn (snd r)\<rparr> \<and> fst r \<notin> set (allSegments (snakes s))"
  proof (cases "cellTaken (snakes s) \<lfloor>rnd s (drawn s) * gridWidth s\<rfloor>
                  \<lfloor>rnd s (drawn s + 1) * gridHeight s\<rfloor>")
    case True
    with eq have "rp (s\<lparr>drawn := drawn s + 2\<rparr>) = Some r"
      by (simp add: Let_def)
    from IH [OF this] show ?thesis by simp
  next
    case False
    with eq show ?thesis by (auto simp: Let_def cellTaken_iff)
  qed
qed

lemma randomColor_Some:
  assumes "randomColor s = Some r"
  shows "snd r = s\<lparr>drawn := drawn (snd r)\<rparr>"
proof (rule randomColor.raw_induct
    [where P = "\<lambda>s r. snd r = s\<lparr>drawn := drawn (snd r)\<rparr>", OF _ assms])
  fix rc :: "state \<Rightarrow> (string \<times> state) option" and s r
  assume IH: "\<And>t q. rc t = Some q \<Longrightarrow> snd q = t\<lparr>drawn := drawn (snd q)\<rparr>"
    and eq: "(let c = CHR ''#'' # toString16 (nat \<lfloor>rnd s (drawn s) * 16777215\<rfloor>);
          s1 = s\<lparr>drawn := drawn s + 1\<rparr>
      in if list_ex (\<lambda>sn. color sn = c) (snakes s) then rc s1 else Some (c, s1)) = Some r"
  show "snd r = s\<lparr>drawn := drawn (snd r)\<rparr>"
  proof (cases "list_ex (\<lambda>sn. color sn = CHR ''#'' # toString16 (nat \<lfloor>rnd s (drawn s) * 16777215\<rfloor>))
                  (snakes s)")
    case True
    with eq have "rc (s\<lparr>drawn := drawn s + 1\<rparr>) = Some r"
      by (simp add: Let_def)
    from IH [OF this] show ?thesis by simp
  next
    case False
    with eq show ?thesis by (auto simp: Let_def)
  qed
qed

lemma allSegments_snoc: "allSegments (ss @ [sn]) = allSegments ss @ body sn"
  by (simp add: allSegments_def)

text \<open>Each round of the loop of \<^const>\<open>createSnakes\<close> adds one snake of one segment, on a
  cell that no earlier snake occupies.\<close>

lemma createSnake_Inr:
  assumes "createSnake en i s = Inr s'"
  shows "\<exists>sn pos. snakes s' = snakes s @ [sn] \<and> body sn = [pos]
           \<and> pos \<notin> set (allSegments (snakes s)) \<and> snake_id sn = i
           \<and> userControlled sn = (i = 0 \<and> en)"
    and "userBlockedCounter s' = userBlockedCounter s"
    and "userControlCheck s' = userControlCheck s"
    and "userSnakeId s' = (if i = 0 \<and> en then Some 0 else userSnakeId s)"
proof -
  from assms obtain c s1 where
    col: "(if i < length presetColors then Some (presetColors ! i, s) else randomColor s)
            = Some (c, s1)"
    by (auto simp: createSnake_def split: option.splits)
  have s1: "s1 = s\<lparr>drawn := drawn s1\<rparr>"
  proof (cases "i < length presetColors")
    case True
    with col show ?thesis by simp
  next
    case False
    with col have "randomColor s = Some (c, s1)" by simp
    from randomColor_Some [OF this] show ?thesis by simp
  qed
  then have sn1: "snakes s1 = snakes s"
    by (metis state.select_convs(3) state.surjective state.update_convs(11))
  let ?sn = "\<lparr>snake_id = i, color = c, body = [], direction = (0, 0), userControlled = False\<rparr>"
  let ?sn1 = "if i = 0 \<and> en then ?sn\<lparr>userControlled := True\<rparr> else ?sn"
  let ?s2 = "if i = 0 \<and> en then s1\<lparr>userSnakeId := Some (snake_id ?sn1)\<rparr> else s1"
  from assms col obtain pos s3 where
    rp: "randomPosition ?s2 = Some (pos, s3)"
    and s': "s' = s3\<lparr>drawn := drawn s3 + 1,
        snakes := snakes s3 @ [?sn1\<lparr>body := body ?sn1 @ [pos],
                                    direction := pickDirection (rnd s3 (drawn s3))\<rparr>]\<rparr>"
    by (auto simp: createSnake_def Let_def split: option.splits if_splits)
  from randomPosition_Some [OF rp] have
    s3: "s3 = ?s2\<lparr>drawn := drawn s3\<rparr>" and free: "pos \<notin> set (allSegments (snakes ?s2))"
    by simp_all
  have sn2: "snakes ?s2 = snakes s" using sn1 by simp
  from s3 have "snakes s3 = snakes ?s2"
    by (metis state.select_convs(3) state.surjective state.update_convs(11))
  with sn2 have sn3: "snakes s3 = snakes s" by simp
  let ?new = "?sn1\<lparr>body := body ?sn1 @ [pos], direction := pickDirection (rnd s3 (drawn s3))\<rparr>"
  have "snakes s' = snakes s @ [?new]" using s' sn3 by simp
  moreover have "body ?new = [pos]" by simp
  moreover have "pos \<notin> set (allSegments (snakes s))" using free sn2 by simp
  moreover have "snake_id ?new = i" by simp
  moreover have "userControlled ?new = (i = 0 \<and> en)" by simp
  ultimately show "\<exists>sn pos. snakes s' = snakes s @ [sn] \<and> body sn = [pos]
           \<and> pos \<notin> set (allSegments (snakes s)) \<and> snake_id sn = i
           \<and> userControlled sn = (i = 0 \<and> en)" by blast
  have f1: "userBlockedCounter s1 = userBlockedCounter s \<and> userControlCheck s1 = userControlCheck s
             \<and> userSnakeId s1 = userSnakeId s"
    by (subst (1 2 3) s1) simp
  have f3: "userBlockedCounter s3 = userBlockedCounter ?s2 \<and> userControlCheck s3 = userControlCheck ?s2
             \<and> userSnakeId s3 = userSnakeId ?s2"
    by (subst (1 2 3) s3) simp
  from f1 f3 show "userBlockedCounter s' = userBlockedCounter s"
    and "userControlCheck s' = userControlCheck s"
    and "userSnakeId s' = (if i = 0 \<and> en then Some 0 else userSnakeId s)"
    unfolding s' by simp_all
qed


lemma createLoop_Inr:
  "createLoop en js s = Inr s' \<Longrightarrow> distinct (allSegments (snakes s))
   \<Longrightarrow> \<forall>sn\<in>set (snakes s). body sn \<noteq> []
   \<Longrightarrow> distinct (allSegments (snakes s')) \<and> (\<forall>sn\<in>set (snakes s'). body sn \<noteq> [])
       \<and> length (snakes s') = length (snakes s) + length js
       \<and> userBlockedCounter s' = userBlockedCounter s
       \<and> userControlCheck s' = userControlCheck s"
proof (induction js arbitrary: s)
  case Nil
  then show ?case by simp
next
  case (Cons j js)
  from Cons.prems(1) obtain s1 where
    c: "createSnake en j s = Inr s1" and r: "createLoop en js s1 = Inr s'"
    by (auto split: sum.splits)
  from createSnake_Inr(1) [OF c] obtain sn pos where
    sn: "snakes s1 = snakes s @ [sn]" "body sn = [pos]" "pos \<notin> set (allSegments (snakes s))"
    by blast
  have d1: "distinct (allSegments (snakes s1))"
    using Cons.prems(2) sn by (simp add: allSegments_snoc)
  have n1: "\<forall>sn\<in>set (snakes s1). body sn \<noteq> []"
    using Cons.prems(3) sn by auto
  from Cons.IH [OF r d1 n1] sn(1) createSnake_Inr(2,3) [OF c] show ?case by simp
qed

lemma createSnakes_Inr:
  assumes "createSnakes count s = Inr s'"
  shows "distinct (allSegments (snakes s'))" and "\<forall>sn\<in>set (snakes s'). body sn \<noteq> []"
    and "length (snakes s') = nat count" and "userBlockedCounter s' = 0"
    and "userControlCheck s' = userControlCheck s"
proof -
  let ?s0 = "s\<lparr>snakes := [], userBlockedCounter := 0\<rparr>"
  from assms have c: "createLoop (userControlCheck s) [0..<nat count] ?s0 = Inr s'"
    by (simp add: createSnakes_def)
  have "distinct (allSegments (snakes ?s0))" "\<forall>sn\<in>set (snakes ?s0). body sn \<noteq> []"
    by (simp_all add: allSegments_def)
  from createLoop_Inr [OF c this]
  show "distinct (allSegments (snakes s'))" and "\<forall>sn\<in>set (snakes s'). body sn \<noteq> []"
    and "length (snakes s') = nat count" and "userBlockedCounter s' = 0"
    and "userControlCheck s' = userControlCheck s"
    by simp_all
qed

text \<open>After the start button the board is in order, whatever it was before.\<close>

lemma startClick_Inr:
  assumes "startClick parsed s = Inr s'"
  shows "boardOk (snakes s') (food s')"
    and "length (snakes s') = nat (requestedCount parsed)"
    and "userBlockedCounter s' = 0" and "timerActive s'"
    and "userControlCheck s' = userControlCheck s"
proof -
  from assms obtain s1 where c: "createSnakes (requestedCount parsed) s = Inr s1"
    by (auto simp: startClick_def split: sum.splits)
  define col where "col = (case List.find (\<lambda>c. c \<notin> set (map color (snakes s1))) foodCandidates of
                   Some c \<Rightarrow> c | None \<Rightarrow> ''yellow'')"
  let ?s2 = "s1\<lparr>foodColor := col\<rparr>"
  from assms c obtain s3 where g: "generateFood_result ?s2 = Inr s3"
    and s': "s' = s3\<lparr>timerActive := True\<rparr>"
    by (auto simp: startClick_def Let_def col_def split: sum.splits)
  note r = generateFood_result_Inr [OF g]
  have f3: "snakes s3 = snakes s1 \<and> userBlockedCounter s3 = userBlockedCounter s1
            \<and> userControlCheck s3 = userControlCheck s1"
    by (subst (1 2 3) r(1)) simp
  note cs = createSnakes_Inr [OF c]
  from r(2) f3 have "food s3 \<notin> set (allSegments (snakes s3))" by simp
  with cs(1,2) f3 have "boardOk (snakes s3) (food s3)" by (simp add: boardOk_def)
  then show "boardOk (snakes s') (food s')" by (simp add: s')
  from cs f3 show "length (snakes s') = nat (requestedCount parsed)"
    and "userBlockedCounter s' = 0" and "timerActive s'"
    and "userControlCheck s' = userControlCheck s"
    by (simp_all add: s')
qed

lemma handle_ok:
  assumes "handle s e = Inr s'" "boardOk (snakes s) (food s)"
  shows "boardOk (snakes s') (food s')"
proof (cases e)
  case (StartClick parsed)
  with assms(1) show ?thesis by (simp add: startClick_Inr(1))
next
  case Tick
  with assms gameLoop_ok show ?thesis by (auto split: if_splits)
next
  case (KeyDown k)
  with assms(1) have "s' = keydown k s" by simp
  with keydown_board [of k s] boardOk_cong assms(2) show ?thesis by metis
next
  case (CheckboxChange b)
  with assms(1) have "s' = checkboxChange b s" by simp
  with checkboxChange_board [of b s] boardOk_cong assms(2) show ?thesis by metis
qed

lemma run_ok:
  "run s evs = Inr s' \<Longrightarrow> boardOk (snakes s) (food s) \<Longrightarrow> boardOk (snakes s') (food s')"
proof (induction evs arbitrary: s)
  case Nil
  then show ?case by simp
next
  case (Cons e evs)
  from Cons.prems(1) obtain s1 where h: "handle s e = Inr s1" and r: "run s1 evs = Inr s'"
    by (auto split: sum.splits)
  from Cons.IH [OF r handle_ok [OF h Cons.prems(2)]] show ?case .
qed

lemma boardOk_initialState: "boardOk (snakes (initialState w h c r)) (food (initialState w h c r))"
  by (simp add: initialState_def boardOk_def allSegments_def)

lemma handle_not_TypeError:
  assumes "boardOk (snakes s) (food s)"
  shows "handle s e \<noteq> Inl TypeError"
proof (cases e)
  case (StartClick parsed)
  have cs: "createSnake en i t \<noteq> Inl TypeError" for en i t
    by (auto simp: createSnake_def Let_def split: option.splits)
  have cl: "createLoop en js t \<noteq> Inl TypeError" for en js t
    by (induction js arbitrary: t) (use cs in \<open>auto split: sum.splits\<close>)
  show ?thesis
    using StartClick cl generateFood_result_not_TypeError
    by (auto simp: startClick_def createSnakes_def Let_def split: sum.splits)
next
  case Tick
  with gameLoop_not_TypeError [OF assms] show ?thesis by simp
qed simp_all

lemma run_not_TypeError:
  "boardOk (snakes s) (food s) \<Longrightarrow> run s evs \<noteq> Inl TypeError"
proof (induction evs arbitrary: s)
  case Nil
  then show ?case by simp
next
  case (Cons e evs)
  show ?case
  proof (cases "handle s e")
    case (Inl f)
    with handle_not_TypeError [OF Cons.prems, of e] show ?thesis by simp
  next
    case (Inr s1)
    from Cons.IH [OF handle_ok [OF Inr Cons.prems]] Inr show ?thesis by simp
  qed
qed

text \<open>The start handler at the count -3: no snake is created.\<close>

lemma startClick_minus_three:
  "startClick (Some (- 3)) s =
       Inr (s\<lparr>snakes := [], userBlockedCounter := 0, foodColor := ''yellow'',
              drawn := drawn s + 2,
              food := (\<lfloor>rnd s (drawn s) * gridWidth s\<rfloor>, \<lfloor>rnd s (drawn s + 1) * gridHeight s\<rfloor>),
              timerActive := True\<rparr>)"
proof -
  let ?s1 = "s\<lparr>snakes := [], userBlockedCounter := 0\<rparr>"
  have c: "createSnakes (- 3) s = Inr ?s1" by (simp add: createSnakes_def)
  let ?s2 = "?s1\<lparr>foodColor := ''yellow''\<rparr>"
  have "generateFood ?s2 = Some (?s2\<lparr>drawn := drawn s + 2,
      food := (\<lfloor>rnd s (drawn s) * gridWidth s\<rfloor>, \<lfloor>rnd s (drawn s + 1) * gridHeight s\<rfloor>)\<rparr>)"
    by (subst generateFood.simps) (simp add: Let_def cellTaken_def)
  then have g: "generateFood_result ?s2 = Inr (?s2\<lparr>drawn := drawn s + 2,
      food := (\<lfloor>rnd s (drawn s) * gridWidth s\<rfloor>, \<lfloor>rnd s (drawn s + 1) * gridHeight s\<rfloor>)\<rparr>)"
    by (simp add: generateFood_result_def)
  have r: "requestedCount (Some (- 3)) = - 3" by (simp add: requestedCount_def)
  show ?thesis
    unfolding startClick_def r c by (simp add: Let_def foodCandidates_def g)
qed
section \<open>Invariants of every run\<close>

lemma demo_run:
  "\<exists>s. run (initialState 3 2 False demoRandom) demoEvents = Inr s
       \<and> map body (snakes s) = [[(2, 0), (1, 0)]] \<and> food s = (0, 0)"
proof -
  have "case run (initialState 3 2 False demoRandom) demoEvents of
          Inl f \<Rightarrow> False
        | Inr s \<Rightarrow> map body (snakes s) = [[(2, 0), (1, 0)]] \<and> food s = (0, 0)"
    by code_simp
  then show ?thesis by (cases "run (initialState 3 2 False demoRandom) demoEvents") auto
qed

text \<open>
  Claim C1. In every state that a run of the page reaches from the initial state, no cell
  holds two segments, of one snake or of two; this also holds inside a tick after each
  snake's move has been committed.
\<close>

theorem segments_never_overlap:
  assumes "run (initialState w h c r) evs = Inr s"
  shows "distinct (allSegments (snakes s))
         \<and> (\<forall>k s1 a. k \<le> length (snakes s) \<and> movesLoop [0..<k] (s, False) = Inr (s1, a)
               \<longrightarrow> distinct (allSegments (snakes s1)))"
proof -
  have ok: "boardOk (snakes s) (food s)"
    using run_ok [OF assms boardOk_initialState] .
  have "distinct (allSegments (snakes s1))"
    if "k \<le> length (snakes s)" "movesLoop [0..<k] (s, False) = Inr (s1, a)" for k s1 a
  proof -
    from that(1) have "\<forall>j\<in>set [0..<k]. j < length (snakes s)" by simp
    from movesLoop_ok [OF that(2) this ok] show ?thesis by (simp add: boardOk_def)
  qed
  with ok show ?thesis by (auto simp: boardOk_def)
qed

lemma demo_moves:
  "\<exists>s s1 a. run (initialState 3 2 False demoRandom) [StartClick (Some 1), Tick] = Inr s
       \<and> map body (snakes s) = [[(1, 0)]] \<and> length (snakes s) = 1
       \<and> movesLoop [0..<1] (s, False) = Inr (s1, a)
       \<and> map body (snakes s1) = [[(2, 0), (1, 0)]]"
proof -
  have "case run (initialState 3 2 False demoRandom) [StartClick (Some 1), Tick] of
          Inl f \<Rightarrow> False
        | Inr s \<Rightarrow>
            map body (snakes s) = [[(1, 0)]] \<and> length (snakes s) = 1
            \<and> (case movesLoop [0..<1] (s, False) of
                   Inl f \<Rightarrow> False
                 | Inr sa \<Rightarrow> map body (snakes (fst sa)) = [[(2, 0), (1, 0)]])"
    by code_simp
  then obtain s where r: "run (initialState 3 2 False demoRandom) [StartClick (Some 1), Tick] = Inr s"
    and b: "map body (snakes s) = [[(1, 0)]]" "length (snakes s) = 1"
    and m: "case movesLoop [0..<1] (s, False) of
                   Inl f \<Rightarrow> False
                 | Inr sa \<Rightarrow> map body (snakes (fst sa)) = [[(2, 0), (1, 0)]]"
    by (cases "run (initialState 3 2 False demoRandom) [StartClick (Some 1), Tick]") auto
  from m obtain s1 a where "movesLoop [0..<1] (s, False) = Inr (s1, a)"
    "map body (snakes s1) = [[(2, 0), (1, 0)]]"
    by (cases "movesLoop [0..<1] (s, False)") auto
  with r b show ?thesis by auto
qed

theorem segments_never_overlap_witness:
  "\<exists>s s1 a. run (initialState 3 2 False demoRandom) [StartClick (Some 1), Tick] = Inr s
       \<and> map body (snakes s) = [[(1, 0)]]
       \<and> distinct (allSegments (snakes s))
       \<and> 1 \<le> length (snakes s) \<and> movesLoop [0..<1] (s, False) = Inr (s1, a)
       \<and> map body (snakes s1) = [[(2, 0), (1, 0)]]
       \<and> distinct (allSegments (snakes s1))"
proof -
  from demo_moves obtain s s1 a where
    r: "run (initialState 3 2 False demoRandom) [StartClick (Some 1), Tick] = Inr s"
    and b: "map body (snakes s) = [[(1, 0)]]" "length (snakes s) = 1"
    and m: "movesLoop [0..<1] (s, False) = Inr (s1, a)"
    and b1: "map body (snakes s1) = [[(2, 0), (1, 0)]]" by auto
  from segments_never_overlap [OF r] b(2) m
  have "distinct (allSegments (snakes s))" "distinct (allSegments (snakes s1))"
    by (simp, metis le_refl)
  with r b m b1 show ?thesis by auto
qed

text \<open>
  Claim C10. In every state that a run of the page reaches from the initial state (after
  the start button, after every tick, key or checkbox change), the food lies on no segment
  of any snake.
\<close>

theorem food_on_no_segment:
  assumes "run (initialState w h c r) evs = Inr s"
  shows "food s \<notin> set (allSegments (snakes s))"
  using run_ok [OF assms boardOk_initialState] by (simp add: boardOk_def)

theorem food_on_no_segment_witness:
  "\<exists>s. run (initialState 3 2 False demoRandom) demoEvents = Inr s
       \<and> map body (snakes s) = [[(2, 0), (1, 0)]] \<and> food s = (0, 0)
       \<and> food s \<notin> set (allSegments (snakes s))"
proof -
  from demo_run obtain s where
    r: "run (initialState 3 2 False demoRandom) demoEvents = Inr s"
    and b: "map body (snakes s) = [[(2, 0), (1, 0)]]" "food s = (0, 0)" by auto
  from food_on_no_segment [OF r] r b show ?thesis by auto
qed

text \<open>No run from the initial state throws.\<close>

lemma run_never_throws: "run (initialState w h c r) evs \<noteq> Inl TypeError"
  using boardOk_initialState by (rule run_not_TypeError)

section \<open>Committing a move\<close>






section \<open>The end of the game\<close>

lemma findIndex_cong: "map P xs = map P ys \<Longrightarrow> findIndex P xs = findIndex P ys"
proof (induction xs arbitrary: ys)
  case Nil
  then show ?case by simp
next
  case (Cons a xs)
  then obtain b ys' where ys: "ys = b # ys'" by (cases ys) auto
  with Cons.prems have "P a = P b" "map P xs = map P ys'" by simp_all
  with Cons.IH [of ys'] ys show ?case by simp
qed

lemma movedOnly_globals:
  assumes "movedOnly J s s'"
  shows "userControlCheck s' = userControlCheck s"
    and "userBlockedCounter s' = userBlockedCounter s"
    and "timerActive s' = timerActive s"
    and "userSnakeId s' = userSnakeId s"
    and "gridWidth s' = gridWidth s" and "gridHeight s' = gridHeight s"
proof -
  from assms have g: "s' = s\<lparr>snakes := snakes s', food := food s', drawn := drawn s'\<rparr>"
    by (simp add: movedOnly_def)
  show "userControlCheck s' = userControlCheck s" by (subst g) simp
  show "userBlockedCounter s' = userBlockedCounter s" by (subst g) simp
  show "timerActive s' = timerActive s" by (subst g) simp
  show "userSnakeId s' = userSnakeId s" by (subst g) simp
  show "gridWidth s' = gridWidth s" by (subst g) simp
  show "gridHeight s' = gridHeight s" by (subst g) simp
qed

lemma movedOnly_flags:
  assumes "movedOnly J s s'"
  shows "map userControlled (snakes s') = map userControlled (snakes s)"
    and "map snake_id (snakes s') = map snake_id (snakes s)"
proof -
  from assms have l: "length (snakes s') = length (snakes s)"
    and r: "\<And>k. k < length (snakes s) \<Longrightarrow>
           snakes s' ! k = (snakes s ! k)\<lparr>body := body (snakes s' ! k),
                                            direction := direction (snakes s' ! k)\<rparr>"
    by (simp_all add: movedOnly_def)
  have "userControlled (snakes s' ! k) = userControlled (snakes s ! k)
        \<and> snake_id (snakes s' ! k) = snake_id (snakes s ! k)" if "k < length (snakes s)" for k
    by (subst (1 2) r [OF that]) simp
  with l show "map userControlled (snakes s') = map userControlled (snakes s)"
    and "map snake_id (snakes s') = map snake_id (snakes s)"
    by (simp_all add: list_eq_iff_nth_eq)
qed

lemma gameOverCheck_surrounded:
  assumes "userControlCheck s" "findIndex userControlled (snakes s) = Some u"
    "body (snakes s ! u) = h # rest" "safeMoves s u h = []"
  shows "gameOverCheck (s, a) =
           Inr (if userBlockedCounter s + 1 \<ge> 3
                then s\<lparr>userBlockedCounter := userBlockedCounter s + 1, timerActive := False\<rparr>
                else s\<lparr>userBlockedCounter := userBlockedCounter s + 1\<rparr>)"
  using assms by (simp add: gameOverCheck_def Let_def USER_BLOCKED_THRESHOLD_def)

lemma gameOverCheck_free:
  assumes "userControlCheck s" "findIndex userControlled (snakes s) = Some u"
    "body (snakes s ! u) = h # rest" "safeMoves s u h \<noteq> []"
  shows "gameOverCheck (s, a) = Inr (s\<lparr>userBlockedCounter := 0\<rparr>)"
  using assms by (simp add: gameOverCheck_def Let_def)

lemma gameOverCheck_auto:
  assumes "\<not> userControlCheck s"
  shows "gameOverCheck (s, a) = Inr (if a then s else s\<lparr>timerActive := False\<rparr>)"
  using assms by (simp add: gameOverCheck_def Let_def)

text \<open>A tick in user-control mode, in terms of the state \<open>s1\<close> after the moves.\<close>

lemma human_tick_result:
  assumes hm: "humanMode s" and gl: "gameLoop s = Inr s'"
  obtains s1 a where
    "movesLoop [0..<length (snakes s)] (s, False) = Inr (s1, a)"
    "userBlockedCounter s1 = userBlockedCounter s" "timerActive s1 = timerActive s"
    "s' = (if tickSurrounded s
           then (if userBlockedCounter s + 1 \<ge> 3
                 then s1\<lparr>userBlockedCounter := userBlockedCounter s + 1, timerActive := False\<rparr>
                 else s1\<lparr>userBlockedCounter := userBlockedCounter s + 1\<rparr>)
           else s1\<lparr>userBlockedCounter := 0\<rparr>)"
proof -
  from hm have chk: "userControlCheck s" and "findIndex userControlled (snakes s) \<noteq> None"
    by (simp_all add: humanMode_def)
  then obtain u where u: "findIndex userControlled (snakes s) = Some u" by auto
  from gl obtain s1 a where
    m: "movesLoop [0..<length (snakes s)] (s, False) = Inr (s1, a)"
    and g: "gameOverCheck (s1, a) = Inr s'"
    by (auto simp: gameLoop_def split: sum.splits)
  have b: "tickSurrounded s = userSurrounded s1" by (simp add: tickSurrounded_def m)
  note mo = movesLoop_movedOnly [OF m]
  note gl1 = movedOnly_globals [OF mo]
  have u1: "findIndex userControlled (snakes s1) = Some u"
    using findIndex_cong [OF movedOnly_flags(1) [OF mo]] u by simp
  have chk1: "userControlCheck s1" using gl1(1) chk by simp
  obtain h rest where bd: "body (snakes s1 ! u) = h # rest"
    using g chk1 u1 by (cases "body (snakes s1 ! u)") (auto simp: gameOverCheck_def Let_def)
  have sur: "userSurrounded s1 \<longleftrightarrow> safeMoves s1 u h = []"
    by (simp add: userSurrounded_def u1 bd)
  have "s' = (if tickSurrounded s
           then (if userBlockedCounter s + 1 \<ge> 3
                 then s1\<lparr>userBlockedCounter := userBlockedCounter s + 1, timerActive := False\<rparr>
                 else s1\<lparr>userBlockedCounter := userBlockedCounter s + 1\<rparr>)
           else s1\<lparr>userBlockedCounter := 0\<rparr>)"
  proof (cases "tickSurrounded s")
    case True
    with b sur have "safeMoves s1 u h = []" by simp
    from gameOverCheck_surrounded [OF chk1 u1 bd this, of a] g True gl1(2) show ?thesis by simp
  next
    case False
    with b sur have "safeMoves s1 u h \<noteq> []" by simp
    from gameOverCheck_free [OF chk1 u1 bd this, of a] g False show ?thesis by simp
  qed
  with m gl1(2,3) show ?thesis by (rule that)
qed

lemma human_tick_surrounded:
  assumes "humanMode s" "gameLoop s = Inr s'" "tickSurrounded s"
  shows "userBlockedCounter s' = userBlockedCounter s + 1"
    and "timerActive s' \<longleftrightarrow> timerActive s \<and> userBlockedCounter s + 1 < 3"
proof -
  from assms(1,2) obtain s1 a where
    g: "userBlockedCounter s1 = userBlockedCounter s" "timerActive s1 = timerActive s"
    and s': "s' = (if tickSurrounded s
           then (if userBlockedCounter s + 1 \<ge> 3
                 then s1\<lparr>userBlockedCounter := userBlockedCounter s + 1, timerActive := False\<rparr>
                 else s1\<lparr>userBlockedCounter := userBlockedCounter s + 1\<rparr>)
           else s1\<lparr>userBlockedCounter := 0\<rparr>)"
    by (rule human_tick_result)
  from s' assms(3) g show "userBlockedCounter s' = userBlockedCounter s + 1"
    and "timerActive s' \<longleftrightarrow> timerActive s \<and> userBlockedCounter s + 1 < 3"
    by auto
qed

lemma human_tick_free:
  assumes "humanMode s" "gameLoop s = Inr s'" "\<not> tickSurrounded s"
  shows "userBlockedCounter s' = 0" and "timerActive s' = timerActive s"
proof -
  from assms(1,2) obtain s1 a where
    g: "userBlockedCounter s1 = userBlockedCounter s" "timerActive s1 = timerActive s"
    and s': "s' = (if tickSurrounded s
           then (if userBlockedCounter s + 1 \<ge> 3
                 then s1\<lparr>userBlockedCounter := userBlockedCounter s + 1, timerActive := False\<rparr>
                 else s1\<lparr>userBlockedCounter := userBlockedCounter s + 1\<rparr>)
           else s1\<lparr>userBlockedCounter := 0\<rparr>)"
    by (rule human_tick_result)
  from s' assms(3) g show "userBlockedCounter s' = 0" and "timerActive s' = timerActive s"
    by auto
qed

lemma keydown_globals:
  "userBlockedCounter (keydown k s) = userBlockedCounter s
   \<and> timerActive (keydown k s) = timerActive s
   \<and> userControlCheck (keydown k s) = userControlCheck s"
  by (simp add: keydown_def Let_def split: option.splits)

lemma keysPressed_globals:
  "userBlockedCounter (keysPressed ks s) = userBlockedCounter s
   \<and> timerActive (keysPressed ks s) = timerActive s
   \<and> userControlCheck (keysPressed ks s) = userControlCheck s"
  unfolding keysPressed_def by (induction ks arbitrary: s) (simp_all add: keydown_globals)


lemma checkboxChange_globals:
  "userBlockedCounter (checkboxChange b s) = userBlockedCounter s
   \<and> timerActive (checkboxChange b s) = timerActive s"
  by (simp add: checkboxChange_def setControlled_def Let_def split: option.splits)

lemma gameOverCheck_counter:
  assumes "gameOverCheck (s, a) = Inr s'" "timerActive s \<longrightarrow> userBlockedCounter s < 3"
  shows "timerActive s' \<longrightarrow> userBlockedCounter s' < 3"
  using assms
  by (auto simp: gameOverCheck_def Let_def USER_BLOCKED_THRESHOLD_def
      split: option.splits list.splits if_splits)

lemma handle_counter:
  assumes "handle s e = Inr s'" "timerActive s \<longrightarrow> userBlockedCounter s < 3"
  shows "timerActive s' \<longrightarrow> userBlockedCounter s' < 3"
proof (cases e)
  case (StartClick parsed)
  with assms(1) startClick_Inr(3) [of parsed s s'] show ?thesis by simp
next
  case Tick
  show ?thesis
  proof (cases "timerActive s")
    case True
    with Tick assms(1) obtain s1 a where
      m: "movesLoop [0..<length (snakes s)] (s, False) = Inr (s1, a)"
      and g: "gameOverCheck (s1, a) = Inr s'"
      by (auto simp: gameLoop_def split: sum.splits)
    note gl1 = movedOnly_globals [OF movesLoop_movedOnly [OF m]]
    from assms(2) gl1 have "timerActive s1 \<longrightarrow> userBlockedCounter s1 < 3" by simp
    with g show ?thesis by (rule gameOverCheck_counter)
  next
    case False
    with Tick assms(1) show ?thesis by simp
  qed
next
  case (KeyDown k)
  with assms keydown_globals [of k s] show ?thesis by auto
next
  case (CheckboxChange b)
  with assms checkboxChange_globals [of b s] show ?thesis by auto
qed

lemma run_counter:
  "run s evs = Inr s' \<Longrightarrow> timerActive s \<longrightarrow> userBlockedCounter s < 3
   \<Longrightarrow> timerActive s' \<longrightarrow> userBlockedCounter s' < 3"
proof (induction evs arbitrary: s)
  case Nil
  then show ?case by simp
next
  case (Cons e evs)
  from Cons.prems(1) obtain s1 where h: "handle s e = Inr s1" and r: "run s1 evs = Inr s'"
    by (auto split: sum.splits)
  from Cons.IH [OF r handle_counter [OF h Cons.prems(2)]] show ?case .
qed

text \<open>
  Claim C5. In user-control mode every tick tests, on the state after the moves of the
  tick, whether the user-controlled snake has a safe move. If it has none, the counter of
  blocked ticks goes up by one and the timer stops when the counter has reached 3; if it
  has one, the counter is reset to 0 and the timer goes on. In every state a run reaches,
  a tick in user-control mode stops the timer exactly when the counter becomes 3. Starting
  from counter 0, two surrounded ticks leave the timer running; a third tick stops it if
  the snake is still surrounded and resets the counter if it is free again.
\<close>

theorem human_grace_window:
  "(humanMode s \<and> gameLoop s = Inr s' \<and> tickSurrounded s \<longrightarrow>
      userBlockedCounter s' = userBlockedCounter s + 1
      \<and> (timerActive s' \<longleftrightarrow> timerActive s \<and> userBlockedCounter s + 1 < 3))
   \<and> (humanMode s \<and> gameLoop s = Inr s' \<and> \<not> tickSurrounded s \<longrightarrow>
      userBlockedCounter s' = 0 \<and> timerActive s' = timerActive s)
   \<and> (run (initialState w h c r) evs = Inr s \<and> timerActive s
       \<and> humanMode s \<and> gameLoop s = Inr s' \<longrightarrow>
      (\<not> timerActive s' \<longleftrightarrow> userBlockedCounter s' = 3))
   \<and> (timerActive t0 \<and> userBlockedCounter t0 = 0
       \<and> humanMode t0 \<and> gameLoop t0 = Inr s1 \<and> tickSurrounded t0
       \<and> t1 = keysPressed ks1 s1
       \<and> humanMode t1 \<and> gameLoop t1 = Inr s2 \<and> tickSurrounded t1
       \<and> t2 = keysPressed ks2 s2
       \<and> humanMode t2 \<and> gameLoop t2 = Inr s3 \<longrightarrow>
      timerActive s1 \<and> timerActive s2
      \<and> (if tickSurrounded t2 then \<not> timerActive s3 \<and> userBlockedCounter s3 = 3
          else timerActive s3 \<and> userBlockedCounter s3 = 0))"
proof (intro conjI impI)
  assume "humanMode s \<and> gameLoop s = Inr s' \<and> tickSurrounded s"
  then show "userBlockedCounter s' = userBlockedCounter s + 1"
    using human_tick_surrounded by blast
next
  assume "humanMode s \<and> gameLoop s = Inr s' \<and> tickSurrounded s"
  then show "timerActive s' \<longleftrightarrow> timerActive s \<and> userBlockedCounter s + 1 < 3"
    using human_tick_surrounded by blast
next
  assume "humanMode s \<and> gameLoop s = Inr s' \<and> \<not> tickSurrounded s"
  then show "userBlockedCounter s' = 0"
    using human_tick_free by blast
next
  assume "humanMode s \<and> gameLoop s = Inr s' \<and> \<not> tickSurrounded s"
  then show "timerActive s' = timerActive s"
    using human_tick_free by blast
next
  assume a: "run (initialState w h c r) evs = Inr s \<and> timerActive s
       \<and> humanMode s \<and> gameLoop s = Inr s'"
  then have "userBlockedCounter s < 3"
    using run_counter [of "initialState w h c r" evs s] by (simp add: initialState_def)
  with a show "\<not> timerActive s' \<longleftrightarrow> userBlockedCounter s' = 3"
    using human_tick_surrounded [of s s'] human_tick_free [of s s']
    by (cases "tickSurrounded s") auto
next
  assume a: "timerActive t0 \<and> userBlockedCounter t0 = 0
       \<and> humanMode t0 \<and> gameLoop t0 = Inr s1 \<and> tickSurrounded t0
       \<and> t1 = keysPressed ks1 s1
       \<and> humanMode t1 \<and> gameLoop t1 = Inr s2 \<and> tickSurrounded t1
       \<and> t2 = keysPressed ks2 s2
       \<and> humanMode t2 \<and> gameLoop t2 = Inr s3"
  then have c1: "userBlockedCounter s1 = 1" "timerActive s1"
    using human_tick_surrounded [of t0 s1] by auto
  with a have k1: "userBlockedCounter t1 = 1" "timerActive t1"
    using keysPressed_globals [of ks1 s1] by auto
  with a have c2: "userBlockedCounter s2 = 2" "timerActive s2"
    using human_tick_surrounded [of t1 s2] by auto
  with a have k2: "userBlockedCounter t2 = 2" "timerActive t2"
    using keysPressed_globals [of ks2 s2] by auto
  have c3: "if tickSurrounded t2 then \<not> timerActive s3 \<and> userBlockedCounter s3 = 3
          else timerActive s3 \<and> userBlockedCounter s3 = 0"
    using a k2 human_tick_surrounded [of t2 s3] human_tick_free [of t2 s3]
    by (cases "tickSurrounded t2") auto
  from c1 show "timerActive s1" by simp
  from c2 show "timerActive s2" by simp
  from c3 show "if tickSurrounded t2 then \<not> timerActive s3 \<and> userBlockedCounter s3 = 3
          else timerActive s3 \<and> userBlockedCounter s3 = 0" .
qed

lemma three_ticks:
  assumes "case gameLoop t0 of
          Inl f \<Rightarrow> False
        | Inr s1 \<Rightarrow> P1 \<and>
            (case gameLoop s1 of
               Inl f \<Rightarrow> False
             | Inr s2 \<Rightarrow> P2 s1 \<and>
                 (case gameLoop s2 of Inl f \<Rightarrow> False | Inr s3 \<Rightarrow> P3 s2))"
  shows "\<exists>s1 s2 s3. gameLoop t0 = Inr s1 \<and> gameLoop s1 = Inr s2 \<and> gameLoop s2 = Inr s3
           \<and> P1 \<and> P2 s1 \<and> P3 s2"
proof -
  from assms obtain s1 where 1: "gameLoop t0 = Inr s1" "P1"
    and r1: "case gameLoop s1 of
               Inl f \<Rightarrow> False
             | Inr s2 \<Rightarrow> P2 s1 \<and>
                 (case gameLoop s2 of Inl f \<Rightarrow> False | Inr s3 \<Rightarrow> P3 s2)"
    by (cases "gameLoop t0") auto
  from r1 obtain s2 where 2: "gameLoop s1 = Inr s2" "P2 s1"
    and r2: "case gameLoop s2 of Inl f \<Rightarrow> False | Inr s3 \<Rightarrow> P3 s2"
    by (cases "gameLoop s1") auto
  from r2 obtain s3 where 3: "gameLoop s2 = Inr s3" "P3 s2"
    by (cases "gameLoop s2") auto
  from 1 2 3 show ?thesis by blast
qed

lemma boxed_freed:
  "\<exists>s1 s2 s3. gameLoop (boxedState freedRandom) = Inr s1 \<and> gameLoop s1 = Inr s2
      \<and> gameLoop s2 = Inr s3
      \<and> (humanMode (boxedState freedRandom) \<and> tickSurrounded (boxedState freedRandom))
      \<and> (humanMode s1 \<and> tickSurrounded s1)
      \<and> (humanMode s2 \<and> \<not> tickSurrounded s2)"
proof (rule three_ticks)
  show "case gameLoop (boxedState freedRandom) of
          Inl f \<Rightarrow> False
        | Inr s1 \<Rightarrow> (humanMode (boxedState freedRandom) \<and> tickSurrounded (boxedState freedRandom)) \<and>
            (case gameLoop s1 of
               Inl f \<Rightarrow> False
             | Inr s2 \<Rightarrow> (humanMode s1 \<and> tickSurrounded s1) \<and>
                 (case gameLoop s2 of Inl f \<Rightarrow> False | Inr s3 \<Rightarrow> humanMode s2 \<and> \<not> tickSurrounded s2))"
    by code_simp
qed

lemma boxed_stuck:
  "\<exists>s1 s2 s3. gameLoop (boxedState stuckRandom) = Inr s1 \<and> gameLoop s1 = Inr s2
      \<and> gameLoop s2 = Inr s3
      \<and> (humanMode (boxedState stuckRandom) \<and> tickSurrounded (boxedState stuckRandom))
      \<and> (humanMode s1 \<and> tickSurrounded s1)
      \<and> (humanMode s2 \<and> tickSurrounded s2)"
proof (rule three_ticks)
  show "case gameLoop (boxedState stuckRandom) of
          Inl f \<Rightarrow> False
        | Inr s1 \<Rightarrow> (humanMode (boxedState stuckRandom) \<and> tickSurrounded (boxedState stuckRandom)) \<and>
            (case gameLoop s1 of
               Inl f \<Rightarrow> False
             | Inr s2 \<Rightarrow> (humanMode s1 \<and> tickSurrounded s1) \<and>
                 (case gameLoop s2 of Inl f \<Rightarrow> False | Inr s3 \<Rightarrow> humanMode s2 \<and> tickSurrounded s2))"
    by code_simp
qed

lemma started_human:
  "\<exists>s s'. run (initialState 3 2 True demoRandom) [StartClick (Some 1)] = Inr s
      \<and> timerActive s \<and> humanMode s \<and> gameLoop s = Inr s'"
proof -
  have "case run (initialState 3 2 True demoRandom) [StartClick (Some 1)] of
          Inl f \<Rightarrow> False
        | Inr s \<Rightarrow> timerActive s \<and> humanMode s
            \<and> (case gameLoop s of Inl f \<Rightarrow> False | Inr s' \<Rightarrow> True)"
    by code_simp
  then obtain s where s: "run (initialState 3 2 True demoRandom) [StartClick (Some 1)] = Inr s"
    "timerActive s" "humanMode s"
    and g: "case gameLoop s of Inl f \<Rightarrow> False | Inr s' \<Rightarrow> True"
    by (cases "run (initialState 3 2 True demoRandom) [StartClick (Some 1)]") auto
  from g obtain s' where "gameLoop s = Inr s'" by (cases "gameLoop s") auto
  with s show ?thesis by blast
qed

theorem human_grace_window_witness:
  "(\<exists>s1 s2 s3. gameLoop (boxedState freedRandom) = Inr s1 \<and> gameLoop s1 = Inr s2
      \<and> gameLoop s2 = Inr s3
      \<and> humanMode (boxedState freedRandom) \<and> tickSurrounded (boxedState freedRandom)
      \<and> humanMode s1 \<and> tickSurrounded s1
      \<and> humanMode s2 \<and> \<not> tickSurrounded s2
      \<and> userBlockedCounter s1 = 1 \<and> userBlockedCounter s2 = 2 \<and> userBlockedCounter s3 = 0
      \<and> timerActive s1 \<and> timerActive s2 \<and> timerActive s3)
   \<and> (\<exists>s1 s2 s3. gameLoop (boxedState stuckRandom) = Inr s1 \<and> gameLoop s1 = Inr s2
      \<and> gameLoop s2 = Inr s3
      \<and> humanMode (boxedState stuckRandom) \<and> tickSurrounded (boxedState stuckRandom)
      \<and> humanMode s1 \<and> tickSurrounded s1
      \<and> humanMode s2 \<and> tickSurrounded s2
      \<and> userBlockedCounter s1 = 1 \<and> userBlockedCounter s2 = 2 \<and> userBlockedCounter s3 = 3
      \<and> timerActive s1 \<and> timerActive s2 \<and> \<not> timerActive s3)
   \<and> (\<exists>s s'. run (initialState 3 2 True demoRandom) [StartClick (Some 1)] = Inr s
      \<and> timerActive s \<and> humanMode s \<and> gameLoop s = Inr s'
      \<and> (\<not> timerActive s' \<longleftrightarrow> userBlockedCounter s' = 3))"
proof (intro conjI)
  have t0: "timerActive (boxedState freedRandom)" "userBlockedCounter (boxedState freedRandom) = 0"
    by (simp_all add: boxedState_def)
  from boxed_freed obtain s1 s2 s3 where
    g: "gameLoop (boxedState freedRandom) = Inr s1" "gameLoop s1 = Inr s2" "gameLoop s2 = Inr s3"
    and h: "humanMode (boxedState freedRandom)" "tickSurrounded (boxedState freedRandom)"
      "humanMode s1" "tickSurrounded s1" "humanMode s2" "\<not> tickSurrounded s2"
    by blast
  note w = human_grace_window [where ?t0.0 = "boxedState freedRandom" and ?s1.0 = s1
      and ?ks1.0 = "[]" and ?t1.0 = s1 and ?s2.0 = s2 and ?ks2.0 = "[]" and ?t2.0 = s2 and ?s3.0 = s3]
  from w [where s = "boxedState freedRandom" and s' = s1] g h t0
  have c1: "userBlockedCounter s1 = 1" by simp
  from w [where s = s1 and s' = s2] g h c1
  have c2: "userBlockedCounter s2 = 2" by simp
  from w g h t0
  have "timerActive s1 \<and> timerActive s2 \<and> timerActive s3 \<and> userBlockedCounter s3 = 0"
    by (simp add: keysPressed_def)
  with g h c1 c2 show "\<exists>s1 s2 s3. gameLoop (boxedState freedRandom) = Inr s1 \<and> gameLoop s1 = Inr s2
      \<and> gameLoop s2 = Inr s3
      \<and> humanMode (boxedState freedRandom) \<and> tickSurrounded (boxedState freedRandom)
      \<and> humanMode s1 \<and> tickSurrounded s1
      \<and> humanMode s2 \<and> \<not> tickSurrounded s2
      \<and> userBlockedCounter s1 = 1 \<and> userBlockedCounter s2 = 2 \<and> userBlockedCounter s3 = 0
      \<and> timerActive s1 \<and> timerActive s2 \<and> timerActive s3" by blast
next
  have t0: "timerActive (boxedState stuckRandom)" "userBlockedCounter (boxedState stuckRandom) = 0"
    by (simp_all add: boxedState_def)
  from boxed_stuck obtain s1 s2 s3 where
    g: "gameLoop (boxedState stuckRandom) = Inr s1" "gameLoop s1 = Inr s2" "gameLoop s2 = Inr s3"
    and h: "humanMode (boxedState stuckRandom)" "tickSurrounded (boxedState stuckRandom)"
      "humanMode s1" "tickSurrounded s1" "humanMode s2" "tickSurrounded s2"
    by blast
  note w = human_grace_window [where ?t0.0 = "boxedState stuckRandom" and ?s1.0 = s1
      and ?ks1.0 = "[]" and ?t1.0 = s1 and ?s2.0 = s2 and ?ks2.0 = "[]" and ?t2.0 = s2 and ?s3.0 = s3]
  from w [where s = "boxedState stuckRandom" and s' = s1] g h t0
  have c1: "userBlockedCounter s1 = 1" by simp
  from w [where s = s1 and s' = s2] g h c1
  have c2: "userBlockedCounter s2 = 2" by simp
  from w g h t0
  have "timerActive s1 \<and> timerActive s2 \<and> \<not> timerActive s3 \<and> userBlockedCounter s3 = 3"
    by (simp add: keysPressed_def)
  with g h c1 c2 show "\<exists>s1 s2 s3. gameLoop (boxedState stuckRandom) = Inr s1 \<and> gameLoop s1 = Inr s2
      \<and> gameLoop s2 = Inr s3
      \<and> humanMode (boxedState stuckRandom) \<and> tickSurrounded (boxedState stuckRandom)
      \<and> humanMode s1 \<and> tickSurrounded s1
      \<and> humanMode s2 \<and> tickSurrounded s2
      \<and> userBlockedCounter s1 = 1 \<and> userBlockedCounter s2 = 2 \<and> userBlockedCounter s3 = 3
      \<and> timerActive s1 \<and> timerActive s2 \<and> \<not> timerActive s3" by blast
next
  from started_human obtain s s' where
    r: "run (initialState 3 2 True demoRandom) [StartClick (Some 1)] = Inr s"
    "timerActive s" "humanMode s" "gameLoop s = Inr s'" by blast
  from human_grace_window [where s = s and s' = s' and w = 3 and h = 2 and c = True
      and r = demoRandom and evs = "[StartClick (Some 1)]"] r
  have "\<not> timerActive s' \<longleftrightarrow> userBlockedCounter s' = 3" by blast
  with r show "\<exists>s s'. run (initialState 3 2 True demoRandom) [StartClick (Some 1)] = Inr s
      \<and> timerActive s \<and> humanMode s \<and> gameLoop s = Inr s'
      \<and> (\<not> timerActive s' \<longleftrightarrow> userBlockedCounter s' = 3)" by blast
qed

section \<open>The two game-over modes\<close>

lemma movesLoop_none_moved:
  "movesLoop js (s, a) = Inr (s1, False) \<Longrightarrow> s1 = s \<and> \<not> a"
proof (induction js arbitrary: s a)
  case Nil
  then show ?case by simp
next
  case (Cons j js)
  from Cons.prems obtain s' a' where
    m: "moveSnake j (s, a) = Inr (s', a')" and r: "movesLoop js (s', a') = Inr (s1, False)"
    by (auto split: sum.splits)
  from Cons.IH [OF r] have e: "s1 = s'" "\<not> a'" by simp_all
  from m e(2) have "s' = s \<and> a' = a" by (cases rule: moveSnake_cases) simp_all
  with e show ?case by simp
qed

lemma controlOk_cong:
  assumes "map snake_id (snakes s') = map snake_id (snakes s)"
    and "map userControlled (snakes s') = map userControlled (snakes s)"
    and "userControlCheck s' = userControlCheck s" and "userSnakeId s' = userSnakeId s"
  shows "controlOk s' = controlOk s"
proof -
  from assms(1) have l: "length (snakes s') = length (snakes s)" by (rule map_eq_imp_length_eq)
  have i: "snake_id (snakes s' ! k) = snake_id (snakes s ! k)" if "k < length (snakes s)" for k
    using that l nth_map [of k "snakes s'" snake_id] nth_map [of k "snakes s" snake_id] assms(1)
    by simp
  have c: "userControlled (snakes s' ! k) = userControlled (snakes s ! k)"
    if "k < length (snakes s)" for k
    using that l nth_map [of k "snakes s'" userControlled]
      nth_map [of k "snakes s" userControlled] assms(2)
    by simp
  have e: "snakes s' \<noteq> [] \<longleftrightarrow> snakes s \<noteq> []" using l by auto
  show ?thesis unfolding controlOk_def l e assms(3,4) using i c by auto
qed

lemma map_flags_set_direction:
  "map snake_id (ss[i := (ss ! i)\<lparr>direction := d\<rparr>]) = map snake_id ss"
  "map userControlled (ss[i := (ss ! i)\<lparr>direction := d\<rparr>]) = map userControlled ss"
  by (cases "i < length ss"; simp add: map_update list_update_same_conv list_update_beyond)+

lemma keydown_control: "controlOk (keydown k s) = controlOk s"
proof (rule controlOk_cong)
  show "map snake_id (snakes (keydown k s)) = map snake_id (snakes s)"
    by (auto simp: keydown_def Let_def map_flags_set_direction split: option.splits)
  show "map userControlled (snakes (keydown k s)) = map userControlled (snakes s)"
    by (auto simp: keydown_def Let_def map_flags_set_direction split: option.splits)
  show "userControlCheck (keydown k s) = userControlCheck s"
    by (simp add: keydown_def Let_def split: option.splits)
  show "userSnakeId (keydown k s) = userSnakeId s"
    by (simp add: keydown_def Let_def split: option.splits)
qed

lemma gameOverCheck_control:
  assumes "gameOverCheck (s, a) = Inr s'"
  shows "snakes s' = snakes s" "userControlCheck s' = userControlCheck s"
    "userSnakeId s' = userSnakeId s"
  using assms
  by (auto simp: gameOverCheck_def Let_def split: option.splits list.splits if_splits)

lemma gameLoop_control:
  assumes "gameLoop s = Inr s'"
  shows "controlOk s' = controlOk s"
proof -
  from assms obtain s1 a where
    m: "movesLoop [0..<length (snakes s)] (s, False) = Inr (s1, a)"
    and g: "gameOverCheck (s1, a) = Inr s'"
    by (auto simp: gameLoop_def split: sum.splits)
  note mo = movesLoop_movedOnly [OF m]
  note gc = gameOverCheck_control [OF g]
  show ?thesis
    using movedOnly_flags [OF mo] movedOnly_globals(1,4) [OF mo] gc
    by (intro controlOk_cong) simp_all
qed


lemma designated_Some:
  assumes ids: "\<forall>k<length ss. snake_id (ss ! k) = k"
    and f: "findIndex (\<lambda>sn. v = Some (snake_id sn)) ss = Some d"
  shows "d < length ss \<and> v = Some d"
  using findIndex_Some [OF f] ids by simp

lemma designated_None:
  assumes ids: "\<forall>k<length ss. snake_id (ss ! k) = k"
    and f: "findIndex (\<lambda>sn. v = Some (snake_id sn)) ss = None"
  shows "\<forall>k<length ss. v \<noteq> Some k"
proof (intro allI impI)
  fix k assume k: "k < length ss"
  then have "ss ! k \<in> set ss" by simp
  with f have "v \<noteq> Some (snake_id (ss ! k))" by (simp add: findIndex_None)
  with ids k show "v \<noteq> Some k" by simp
qed

lemma checkboxChange_control:
  assumes ok: "controlOk s"
  shows "controlOk (checkboxChange b s)"
proof -
  let ?ss = "snakes s"
  from ok have ids: "\<forall>k<length ?ss. snake_id (?ss ! k) = k"
    and fl: "\<And>k. k < length ?ss \<Longrightarrow> userControlled (?ss ! k) \<Longrightarrow> userSnakeId s = Some k"
    by (simp_all add: controlOk_def)
  show ?thesis
  proof (cases "findIndex (\<lambda>sn. userSnakeId s = Some (snake_id sn)) ?ss")
    case None
    from designated_None [OF ids None] fl
    have nofl: "\<forall>k<length ?ss. \<not> userControlled (?ss ! k)" by blast
    show ?thesis
    proof (cases "b \<and> ?ss \<noteq> []")
      case True
      then have e: "checkboxChange b s =
          s\<lparr>userControlCheck := True, snakes := ?ss[0 := (?ss ! 0)\<lparr>userControlled := True\<rparr>],
            userSnakeId := Some (snake_id (?ss ! 0))\<rparr>"
        using None by (simp add: checkboxChange_def setControlled_def Let_def)
      from True have l: "0 < length ?ss" by simp
      with ids have i0: "snake_id (?ss ! 0) = 0" by simp
      show ?thesis
        unfolding e controlOk_def using ids nofl l i0
        by (auto simp: nth_list_update)
    next
      case False
      then have e: "checkboxChange b s = s\<lparr>userControlCheck := b\<rparr>"
        using None by (auto simp: checkboxChange_def setControlled_def Let_def)
      show ?thesis
        unfolding e controlOk_def using ids nofl False by auto
    qed
  next
    case (Some d)
    from designated_Some [OF ids Some] have d: "d < length ?ss" "userSnakeId s = Some d" by simp_all
    have e: "checkboxChange b s =
        s\<lparr>userControlCheck := b, snakes := ?ss[d := (?ss ! d)\<lparr>userControlled := b\<rparr>]\<rparr>"
      using Some by (cases b) (simp_all add: checkboxChange_def setControlled_def Let_def)
    have only: "\<And>k. k < length ?ss \<Longrightarrow> userControlled (?ss ! k) \<Longrightarrow> k = d"
      using fl d(2) by simp
    show ?thesis
      unfolding e controlOk_def using ids d only
      by (auto simp: nth_list_update)
  qed
qed

lemma createLoop_control:
  "createLoop en js s = Inr s' \<Longrightarrow> js = [length (snakes s)..<n]
   \<Longrightarrow> (\<forall>k<length (snakes s). snake_id (snakes s ! k) = k
                \<and> (userControlled (snakes s ! k) \<longleftrightarrow> k = 0 \<and> en))
   \<Longrightarrow> (snakes s \<noteq> [] \<and> en \<longrightarrow> userSnakeId s = Some 0)
   \<Longrightarrow> (\<forall>k<length (snakes s'). snake_id (snakes s' ! k) = k
                \<and> (userControlled (snakes s' ! k) \<longleftrightarrow> k = 0 \<and> en))
       \<and> (snakes s' \<noteq> [] \<and> en \<longrightarrow> userSnakeId s' = Some 0)"
proof (induction js arbitrary: s)
  case Nil
  then show ?case by simp
next
  case (Cons j js)
  from Cons.prems(1) obtain s1 where
    c: "createSnake en j s = Inr s1" and r: "createLoop en js s1 = Inr s'"
    by (auto split: sum.splits)
  from Cons.prems(2) have "[length (snakes s)..<n] = j # js" by simp
  then have j: "j = length (snakes s)" and js: "js = [Suc (length (snakes s))..<n]"
    by (auto simp: upt_eq_Cons_conv)
  from createSnake_Inr(1) [OF c] obtain sn pos where
    sn: "snakes s1 = snakes s @ [sn]" "snake_id sn = j" "userControlled sn = (j = 0 \<and> en)"
    by blast
  note u = createSnake_Inr(4) [OF c]
  have 1: "js = [length (snakes s1)..<n]" using js sn(1) by simp
  have 2: "\<forall>k<length (snakes s1). snake_id (snakes s1 ! k) = k
                \<and> (userControlled (snakes s1 ! k) \<longleftrightarrow> k = 0 \<and> en)"
    using Cons.prems(3) sn j by (auto simp: nth_append less_Suc_eq)
  have 3: "snakes s1 \<noteq> [] \<and> en \<longrightarrow> userSnakeId s1 = Some 0"
    using Cons.prems(4) u j by auto
  from Cons.IH [OF r 1 2 3] show ?case .
qed

lemma startClick_control:
  assumes "startClick parsed s = Inr s'"
  shows "controlOk s'"
proof -
  from assms obtain s1 where c: "createSnakes (requestedCount parsed) s = Inr s1"
    by (auto simp: startClick_def split: sum.splits)
  define col where "col = (case List.find (\<lambda>c. c \<notin> set (map color (snakes s1))) foodCandidates of
                   Some c \<Rightarrow> c | None \<Rightarrow> ''yellow'')"
  let ?s2 = "s1\<lparr>foodColor := col\<rparr>"
  from assms c obtain s3 where g: "generateFood_result ?s2 = Inr s3"
    and s': "s' = s3\<lparr>timerActive := True\<rparr>"
    by (auto simp: startClick_def Let_def col_def split: sum.splits)
  note r = generateFood_result_Inr [OF g]
  have f3: "snakes s3 = snakes s1 \<and> userSnakeId s3 = userSnakeId s1
            \<and> userControlCheck s3 = userControlCheck s1"
    by (subst (1 2 3) r(1)) simp
  let ?s0 = "s\<lparr>snakes := [], userBlockedCounter := 0\<rparr>"
  from c have cl: "createLoop (userControlCheck s) [0..<nat (requestedCount parsed)] ?s0 = Inr s1"
    by (simp add: createSnakes_def)
  from createLoop_control [OF cl, of "nat (requestedCount parsed)"]
  have q: "\<forall>k<length (snakes s1). snake_id (snakes s1 ! k) = k
                \<and> (userControlled (snakes s1 ! k) \<longleftrightarrow> k = 0 \<and> userControlCheck s)"
    and q2: "snakes s1 \<noteq> [] \<and> userControlCheck s \<longrightarrow> userSnakeId s1 = Some 0"
    by simp_all
  have chk: "userControlCheck s1 = userControlCheck s" using createSnakes_Inr(5) [OF c] .
  show ?thesis
    unfolding controlOk_def s' using q q2 chk f3 by auto
qed

lemma handle_control:
  assumes "handle s e = Inr s'" "controlOk s"
  shows "controlOk s'"
proof (cases e)
  case (StartClick parsed)
  with assms(1) show ?thesis by (simp add: startClick_control)
next
  case Tick
  with assms gameLoop_control show ?thesis by (auto split: if_splits)
next
  case (KeyDown k)
  with assms show ?thesis by (auto simp: keydown_control)
next
  case (CheckboxChange b)
  with assms show ?thesis by (auto simp: checkboxChange_control)
qed

lemma run_control:
  "run s evs = Inr s' \<Longrightarrow> controlOk s \<Longrightarrow> controlOk s'"
proof (induction evs arbitrary: s)
  case Nil
  then show ?case by simp
next
  case (Cons e evs)
  from Cons.prems(1) obtain s1 where h: "handle s e = Inr s1" and r: "run s1 evs = Inr s'"
    by (auto split: sum.splits)
  from Cons.IH [OF r handle_control [OF h Cons.prems(2)]] show ?case .
qed

lemma controlOk_initialState: "controlOk (initialState w h c r)"
  by (simp add: controlOk_def initialState_def)

text \<open>In every state a run reaches with at least one snake, the checkbox is checked exactly
  when some snake is user-controlled.\<close>

lemma checkbox_iff_user_snake:
  assumes "run (initialState w h c r) evs = Inr s" "snakes s \<noteq> []"
  shows "userControlCheck s \<longleftrightarrow> findIndex userControlled (snakes s) \<noteq> None"
proof -
  from run_control [OF assms(1) controlOk_initialState] have ok: "controlOk s" .
  have "findIndex userControlled (snakes s) \<noteq> None
        \<longleftrightarrow> (\<exists>k<length (snakes s). userControlled (snakes s ! k))"
    by (simp add: findIndex_None) (metis in_set_conv_nth)
  with ok assms(2) show ?thesis unfolding controlOk_def by blast
qed

lemma started_auto:
  "\<exists>s. run (initialState 3 2 False demoRandom) [StartClick (Some 1)] = Inr s
      \<and> snakes s \<noteq> [] \<and> \<not> userControlCheck s"
proof -
  have "case run (initialState 3 2 False demoRandom) [StartClick (Some 1)] of
          Inl f \<Rightarrow> False
        | Inr s \<Rightarrow> snakes s \<noteq> [] \<and> \<not> userControlCheck s"
    by code_simp
  then show ?thesis
    by (cases "run (initialState 3 2 False demoRandom) [StartClick (Some 1)]") auto
qed

text \<open>A committed move puts the new head in front of the body.\<close>

lemma commitMove_head:
  assumes c: "commitMove i new s = Inr s'" and i: "i < length (snakes s)"
    and b: "body (snakes s ! i) = h # rest"
  shows "\<exists>t. body (snakes s' ! i) = new # t"
proof (cases "new = food s")
  case True
  with c have "commitMove i (food s) s = Inr s'" by simp
  from commitMove_food(1) [OF this] i True show ?thesis by simp
next
  case False
  from c commitMove_no_food [OF False, of i]
  have "snakes s' = (snakes s)[i := (snakes s ! i)\<lparr>body := butlast (new # body (snakes s ! i))\<rparr>]"
    by auto
  with i b show ?thesis by simp
qed

lemma allDirections_step:
  "d \<in> set allDirections \<Longrightarrow> (fst h + fst d, snd h + snd d) \<noteq> h"
  by (auto simp: allDirections_def prod_eq_iff)

text \<open>An AI snake sets the flag \<^verbatim>\<open>anyMoved\<close> exactly when its body changes.\<close>

lemma moveSnake_ai_moved:
  assumes m: "moveSnake i (s, a) = Inr (s', a')" and i: "i < length (snakes s)"
    and nu: "\<not> userControlled (snakes s ! i)"
  shows "a' \<longleftrightarrow> a \<or> body (snakes s' ! i) \<noteq> body (snakes s ! i)"
  using m
proof (cases rule: moveSnake_cases)
  case blocked
  then show ?thesis by simp
next
  case (user h rest)
  with nu show ?thesis by simp
next
  case (ai h rest d s1)
  from getNextDirection_Some [OF ai(3)] ai(1) have "d \<in> set (safeDirections s i h)" by simp
  from safeDirections_free [OF this] have "d \<in> set (possibleDirections (snakes s ! i))" by simp
  then have "d \<in> set allDirections" by (simp add: possibleDirections_mem)
  note ne = allDirections_step [OF this, of h]
  from commitMove_head [OF ai(4) i ai(1)] obtain t where
    t: "body (snakes s1 ! i) = (fst h + fst d, snd h + snd d) # t" by blast
  from commitMove_frame(2) [OF ai(4)] have l: "length (snakes s1) = length (snakes s)" by auto
  have "body (snakes s' ! i) = body (snakes s1 ! i)" unfolding ai(5) using i l by simp
  with t ai(1) ne ai(6) show ?thesis by simp
qed

lemma movesLoop_moved_iff:
  "movesLoop js (s, a) = Inr (s1, a1) \<Longrightarrow> distinct js
   \<Longrightarrow> \<forall>j\<in>set js. j < length (snakes s)
   \<Longrightarrow> \<forall>k<length (snakes s). \<not> userControlled (snakes s ! k)
   \<Longrightarrow> a1 \<longleftrightarrow> a \<or> (\<exists>j\<in>set js. body (snakes s1 ! j) \<noteq> body (snakes s ! j))"
proof (induction js arbitrary: s a)
  case Nil
  then show ?case by simp
next
  case (Cons j js)
  from Cons.prems(1) obtain s' a' where
    m: "moveSnake j (s, a) = Inr (s', a')" and r: "movesLoop js (s', a') = Inr (s1, a1)"
    by (auto split: sum.splits)
  from Cons.prems(2) have d: "distinct js" "j \<notin> set js" by simp_all
  from Cons.prems(3) have j: "j < length (snakes s)"
    and js: "\<forall>k\<in>set js. k < length (snakes s)" by simp_all
  note mo = moveSnake_movedOnly [OF m]
  from mo have l: "length (snakes s') = length (snakes s)" by (simp add: movedOnly_def)
  from mo have same: "snakes s' ! k = snakes s ! k" if "k < length (snakes s)" "k \<noteq> j" for k
    using that by (simp add: movedOnly_def)
  have fl: "\<forall>k<length (snakes s'). \<not> userControlled (snakes s' ! k)"
  proof (intro allI impI)
    fix k assume k: "k < length (snakes s')"
    with l have "userControlled (snakes s' ! k) = map userControlled (snakes s') ! k" by simp
    also have "\<dots> = map userControlled (snakes s) ! k" by (simp add: movedOnly_flags(1) [OF mo])
    also from k l have "\<dots> = userControlled (snakes s ! k)" by simp
    finally show "\<not> userControlled (snakes s' ! k)" using Cons.prems(4) k l by simp
  qed
  from js l have js': "\<forall>k\<in>set js. k < length (snakes s')" by simp
  from Cons.IH [OF r d(1) js' fl]
  have ih: "a1 \<longleftrightarrow> a' \<or> (\<exists>k\<in>set js. body (snakes s1 ! k) \<noteq> body (snakes s' ! k))" .
  from Cons.prems(4) j have "\<not> userControlled (snakes s ! j)" by simp
  from moveSnake_ai_moved [OF m j this]
  have a': "a' \<longleftrightarrow> a \<or> body (snakes s' ! j) \<noteq> body (snakes s ! j)" .
  from movesLoop_movedOnly [OF r] l j d(2) have keep: "snakes s1 ! j = snakes s' ! j"
    by (simp add: movedOnly_def)
  have rest: "snakes s' ! k = snakes s ! k" if "k \<in> set js" for k
    using that same js d(2) by auto
  have "(\<exists>k\<in>set js. body (snakes s1 ! k) \<noteq> body (snakes s' ! k))
        \<longleftrightarrow> (\<exists>k\<in>set js. body (snakes s1 ! k) \<noteq> body (snakes s ! k))"
    using rest by simp
  with ih a' keep show ?case by auto
qed

text \<open>In a tick without user-controlled snakes the flag is set exactly when some body
  has changed, and a tick that leaves the flag unset leaves the state as it was.\<close>

lemma tick_moved_iff:
  assumes m: "movesLoop [0..<length (snakes s)] (s, False) = Inr (s1, a)"
    and nu: "findIndex userControlled (snakes s) = None"
  shows "a \<longleftrightarrow> map body (snakes s1) \<noteq> map body (snakes s)"
proof -
  from nu have fl: "\<forall>k<length (snakes s). \<not> userControlled (snakes s ! k)"
    by (simp add: findIndex_None)
  from movesLoop_moved_iff [OF m _ _ fl]
  have a: "a \<longleftrightarrow> (\<exists>j<length (snakes s). body (snakes s1 ! j) \<noteq> body (snakes s ! j))"
    by (auto simp: Bex_def)
  from movesLoop_movedOnly [OF m] have l: "length (snakes s1) = length (snakes s)"
    by (simp add: movedOnly_def)
  have "map body (snakes s1) = map body (snakes s)
        \<longleftrightarrow> (\<forall>j<length (snakes s). body (snakes s1 ! j) = body (snakes s ! j))"
    using l by (simp add: list_eq_iff_nth_eq)
  with a show ?thesis by auto
qed

lemma blocked_everywhere:
  assumes "\<forall>e\<in>set [(1, 0), (- 1, 0), (0, 1), (0, - 1)].
             (1 < length (body (snakes s ! i)) \<and> reverses e (direction (snakes s ! i)))
             \<or> fst h + fst e < 0 \<or> gridWidth s \<le> of_int (fst h + fst e)
             \<or> snd h + snd e < 0 \<or> gridHeight s \<le> of_int (snd h + snd e)
             \<or> isCellOccupied (snakes s) (fst h + fst e) (snd h + snd e) (Some i)"
  shows "safeDirections s i h = []"
proof -
  have "e \<notin> set (safeDirections s i h)" for e
  proof
    assume e: "e \<in> set (safeDirections s i h)"
    then have "e \<in> set [(1, 0), (- 1, 0), (0, 1), (0, - 1)]"
      by (simp only: safeDirections_mem)
    with assms have
      "(1 < length (body (snakes s ! i)) \<and> reverses e (direction (snakes s ! i)))
       \<or> fst h + fst e < 0 \<or> gridWidth s \<le> of_int (fst h + fst e)
       \<or> snd h + snd e < 0 \<or> gridHeight s \<le> of_int (snd h + snd e)
       \<or> isCellOccupied (snakes s) (fst h + fst e) (snd h + snd e) (Some i)"
      by (rule bspec)
    with e show False unfolding safeDirections_mem by (auto simp: not_less)
  qed
  then show ?thesis by (cases "safeDirections s i h") auto
qed

text \<open>A tick with the checkbox unchecked and no user-controlled snake.\<close>

lemma auto_tick:
  assumes nc: "\<not> userControlCheck s"
    and nu: "findIndex userControlled (snakes s) = None"
    and m: "movesLoop [0..<length (snakes s)] (s, False) = Inr (s1, anyMoved)"
  shows "anyMoved \<longleftrightarrow> map body (snakes s1) \<noteq> map body (snakes s)"
    and "gameLoop s = Inr (if map body (snakes s1) = map body (snakes s)
                           then s\<lparr>timerActive := False\<rparr> else s1)"
    and "timerActive s1 = timerActive s"
proof -
  note gl = movedOnly_globals [OF movesLoop_movedOnly [OF m]]
  from nc gl(1) have "\<not> userControlCheck s1" by simp
  from gameOverCheck_auto [OF this, of anyMoved] m
  have g: "gameLoop s = Inr (if anyMoved then s1 else s1\<lparr>timerActive := False\<rparr>)"
    by (simp add: gameLoop_def)
  show iff: "anyMoved \<longleftrightarrow> map body (snakes s1) \<noteq> map body (snakes s)"
    using m nu by (rule tick_moved_iff)
  show "gameLoop s = Inr (if map body (snakes s1) = map body (snakes s)
                           then s\<lparr>timerActive := False\<rparr> else s1)"
  proof (cases anyMoved)
    case True
    with g iff show ?thesis by simp
  next
    case False
    with m movesLoop_none_moved [of "[0..<length (snakes s)]" s False s1] have "s1 = s" by simp
    with g False iff show ?thesis by simp
  qed
  show "timerActive s1 = timerActive s" by (rule gl(3))
qed

lemma empty_board_start:
  "run (initialState 3 2 True zeroRandom) [StartClick (Some (- 3))] = Inr emptyBoard"
  using startClick_minus_three [of "initialState 3 2 True zeroRandom"]
  by (simp add: initialState_def emptyBoard_def zeroRandom_def)

text \<open>
  Claim C6 as worded, at a state a run reaches. After a start with the count -3 and the
  checkbox checked there is no snake at all, so no human snake is active; in a tick zero
  snakes move (the flag stays unset and no body changes); and the tick leaves the timer
  running, as do all later ticks.
\<close>

theorem no_human_empty_board_counterexample:
  "run (initialState 3 2 True zeroRandom) [StartClick (Some (- 3))] = Inr emptyBoard
   \<and> findIndex userControlled (snakes emptyBoard) = None
   \<and> movesLoop [0..<length (snakes emptyBoard)] (emptyBoard, False) = Inr (emptyBoard, False)
   \<and> gameLoop emptyBoard = Inr emptyBoard
   \<and> timerActive emptyBoard
   \<and> run (initialState 3 2 True zeroRandom) [StartClick (Some (- 3)), Tick, Tick, Tick]
       = Inr emptyBoard"
proof -
  have r: "run (initialState 3 2 True zeroRandom) [StartClick (Some (- 3))] = Inr emptyBoard"
    by (rule empty_board_start)
  have n: "findIndex userControlled (snakes emptyBoard) = None" by (simp add: emptyBoard_def)
  have m: "movesLoop [0..<length (snakes emptyBoard)] (emptyBoard, False) = Inr (emptyBoard, False)"
    by (simp add: emptyBoard_def)
  have c: "userControlCheck emptyBoard" by (simp add: emptyBoard_def)
  from m n c have g: "gameLoop emptyBoard = Inr emptyBoard"
    by (simp add: gameLoop_def gameOverCheck_def Let_def)
  have t: "timerActive emptyBoard" by (simp add: emptyBoard_def)
  from r have h: "startClick (Some (- 3)) (initialState 3 2 True zeroRandom) = Inr emptyBoard"
    by (simp split: sum.splits)
  have r3: "run (initialState 3 2 True zeroRandom) [StartClick (Some (- 3)), Tick, Tick, Tick]
       = Inr emptyBoard"
    by (simp add: h g t)
  from r n m g t r3 show ?thesis by simp
qed

text \<open>
  Claim C6, amended. The program chooses between the two game-over rules by the
  checkbox, not by looking for a user-controlled snake. With the checkbox unchecked and
  no snake under user control, the flag \<^verbatim>\<open>anyMoved\<close> is set after the moves of a tick
  exactly when the body of some snake has changed; a tick in which no body has changed
  returns the state it started from with the timer stopped, and a tick in which some body
  has changed returns the state after the moves with the timer as it was. In particular, a
  single AI snake with a head \<open>h\<close> each of whose four neighbours is filtered out as the
  reverse of its direction, lies outside the grid or is occupied ends the game in that
  very tick: the tick returns, with the timer stopped. In every state a run reaches, an
  unchecked checkbox means that no snake is user-controlled, and with at least one snake
  on the board the absence of a user-controlled snake means that the checkbox is
  unchecked; so in a state a run reaches with at least one snake and none of them
  user-controlled, a tick ends the game exactly when no body has changed.
\<close>

theorem no_human_game_over:
  "(\<not> userControlCheck s \<and> findIndex userControlled (snakes s) = None
      \<and> movesLoop [0..<length (snakes s)] (s, False) = Inr (s1, anyMoved) \<longrightarrow>
      (anyMoved \<longleftrightarrow> map body (snakes s1) \<noteq> map body (snakes s))
      \<and> gameLoop s = Inr (if map body (snakes s1) = map body (snakes s)
                           then s\<lparr>timerActive := False\<rparr> else s1)
      \<and> timerActive s1 = timerActive s)
   \<and> (\<not> userControlCheck s \<and> snakes s = [sn] \<and> \<not> userControlled sn \<and> body sn = h # rest
       \<and> (\<forall>e\<in>set [(1, 0), (- 1, 0), (0, 1), (0, - 1)].
             (1 < length (body sn) \<and> reverses e (direction sn))
             \<or> fst h + fst e < 0 \<or> gridWidth s \<le> of_int (fst h + fst e)
             \<or> snd h + snd e < 0 \<or> gridHeight s \<le> of_int (snd h + snd e)
             \<or> isCellOccupied (snakes s) (fst h + fst e) (snd h + snd e) (Some 0)) \<longrightarrow>
      gameLoop s = Inr (s\<lparr>timerActive := False\<rparr>))
   \<and> (run (initialState w ht c r) evs = Inr s \<longrightarrow>
        (\<not> userControlCheck s \<longrightarrow> findIndex userControlled (snakes s) = None)
        \<and> (findIndex userControlled (snakes s) = None \<and> snakes s \<noteq> []
             \<longrightarrow> \<not> userControlCheck s))
   \<and> (run (initialState w ht c r) evs = Inr s \<and> snakes s \<noteq> []
       \<and> findIndex userControlled (snakes s) = None
       \<and> movesLoop [0..<length (snakes s)] (s, False) = Inr (s1, anyMoved) \<longrightarrow>
      (anyMoved \<longleftrightarrow> map body (snakes s1) \<noteq> map body (snakes s))
      \<and> gameLoop s = Inr (if map body (snakes s1) = map body (snakes s)
                           then s\<lparr>timerActive := False\<rparr> else s1)
      \<and> timerActive s1 = timerActive s)"
proof (intro conjI impI)
  assume a: "\<not> userControlCheck s \<and> findIndex userControlled (snakes s) = None
      \<and> movesLoop [0..<length (snakes s)] (s, False) = Inr (s1, anyMoved)"
  from a have nc: "\<not> userControlCheck s" by (elim conjE)
  from a have nu: "findIndex userControlled (snakes s) = None" by (elim conjE)
  from a have m: "movesLoop [0..<length (snakes s)] (s, False) = Inr (s1, anyMoved)"
    by (elim conjE)
  show "anyMoved \<longleftrightarrow> map body (snakes s1) \<noteq> map body (snakes s)"
    using nc nu m by (rule auto_tick(1))
  show "gameLoop s = Inr (if map body (snakes s1) = map body (snakes s)
                           then s\<lparr>timerActive := False\<rparr> else s1)"
    using nc nu m by (rule auto_tick(2))
  show "timerActive s1 = timerActive s" using nc nu m by (rule auto_tick(3))
next
  assume a: "\<not> userControlCheck s \<and> snakes s = [sn] \<and> \<not> userControlled sn \<and> body sn = h # rest
       \<and> (\<forall>e\<in>set [(1, 0), (- 1, 0), (0, 1), (0, - 1)].
             (1 < length (body sn) \<and> reverses e (direction sn))
             \<or> fst h + fst e < 0 \<or> gridWidth s \<le> of_int (fst h + fst e)
             \<or> snd h + snd e < 0 \<or> gridHeight s \<le> of_int (snd h + snd e)
             \<or> isCellOccupied (snakes s) (fst h + fst e) (snd h + snd e) (Some 0))"
  from a have nc: "\<not> userControlCheck s" by (elim conjE)
  from a have ss: "snakes s = [sn]" by (elim conjE)
  from a have nu: "\<not> userControlled sn" by (elim conjE)
  from a have b: "body sn = h # rest" by (elim conjE)
  from ss have sn: "snakes s ! 0 = sn" by simp
  from a have blk: "\<forall>e\<in>set [(1, 0), (- 1, 0), (0, 1), (0, - 1)].
             (1 < length (body sn) \<and> reverses e (direction sn))
             \<or> fst h + fst e < 0 \<or> gridWidth s \<le> of_int (fst h + fst e)
             \<or> snd h + snd e < 0 \<or> gridHeight s \<le> of_int (snd h + snd e)
             \<or> isCellOccupied (snakes s) (fst h + fst e) (snd h + snd e) (Some 0)"
    by (elim conjE)
  have "safeDirections s 0 h = []"
    by (rule blocked_everywhere) (unfold sn, rule blk)
  with b sn have "getNextDirection s 0 = Inr None"
    by (simp add: getNextDirection_def Let_def)
  with b sn nu have "moveSnake 0 (s, False) = Inr (s, False)"
    by (simp add: moveSnake_def Let_def)
  with ss have "movesLoop [0..<length (snakes s)] (s, False) = Inr (s, False)" by simp
  with gameOverCheck_auto [OF nc, of False] show "gameLoop s = Inr (s\<lparr>timerActive := False\<rparr>)"
    by (simp add: gameLoop_def)
next
  assume r: "run (initialState w ht c r) evs = Inr s"
  show "findIndex userControlled (snakes s) = None" if "\<not> userControlCheck s"
  proof (cases "snakes s = []")
    case True
    then show ?thesis by simp
  next
    case False
    from checkbox_iff_user_snake [OF r False] that show ?thesis by simp
  qed
  show "\<not> userControlCheck s"
    if n: "findIndex userControlled (snakes s) = None \<and> snakes s \<noteq> []"
  proof -
    from n have "snakes s \<noteq> []" by (rule conjunct2)
    from checkbox_iff_user_snake [OF r this] n show ?thesis by simp
  qed
next
  assume a: "run (initialState w ht c r) evs = Inr s \<and> snakes s \<noteq> []
       \<and> findIndex userControlled (snakes s) = None
       \<and> movesLoop [0..<length (snakes s)] (s, False) = Inr (s1, anyMoved)"
  from a have r: "run (initialState w ht c r) evs = Inr s" by (elim conjE)
  from a have ne: "snakes s \<noteq> []" by (elim conjE)
  from a have nu: "findIndex userControlled (snakes s) = None" by (elim conjE)
  from a have m: "movesLoop [0..<length (snakes s)] (s, False) = Inr (s1, anyMoved)"
    by (elim conjE)
  from checkbox_iff_user_snake [OF r ne] nu have nc: "\<not> userControlCheck s" by simp
  show "anyMoved \<longleftrightarrow> map body (snakes s1) \<noteq> map body (snakes s)"
    using nc nu m by (rule auto_tick(1))
  show "gameLoop s = Inr (if map body (snakes s1) = map body (snakes s)
                           then s\<lparr>timerActive := False\<rparr> else s1)"
    using nc nu m by (rule auto_tick(2))
  show "timerActive s1 = timerActive s" using nc nu m by (rule auto_tick(3))
qed

theorem no_human_game_over_witness:
  "\<not> userControlCheck trappedState
   \<and> findIndex userControlled (snakes trappedState) = None
   \<and> movesLoop [0..<length (snakes trappedState)] (trappedState, False)
        = Inr (trappedState, False)
   \<and> snakes trappedState = [snakes trappedState ! 0]
   \<and> \<not> userControlled (snakes trappedState ! 0)
   \<and> body (snakes trappedState ! 0) = (0, 0) # [(1, 0), (1, 1), (0, 1), (0, 2)]
   \<and> 1 < length (body (snakes trappedState ! 0))
   \<and> reverses (1, 0) (direction (snakes trappedState ! 0))
   \<and> fst ((0, 0)::cell) + fst ((- 1, 0)::cell) < 0
   \<and> isCellOccupied (snakes trappedState) (fst ((0, 0)::cell) + fst ((0, 1)::cell))
        (snd ((0, 0)::cell) + snd ((0, 1)::cell)) (Some 0)
   \<and> snd ((0, 0)::cell) + snd ((0, - 1)::cell) < 0
   \<and> gameLoop trappedState = Inr (trappedState\<lparr>timerActive := False\<rparr>)
   \<and> handle trappedState Tick = Inr (trappedState\<lparr>timerActive := False\<rparr>)
   \<and> \<not> userControlCheck tieState
   \<and> findIndex userControlled (snakes tieState) = None
   \<and> map body (snakes tieState) = [[(0, 0)], [(2, 0)]]
   \<and> (\<exists>s1. movesLoop [0..<length (snakes tieState)] (tieState, False) = Inr (s1, True)
         \<and> map body (snakes s1) = [[(1, 0)], [(2, 1)]]
         \<and> gameLoop tieState = Inr s1 \<and> timerActive s1)
   \<and> (\<exists>s. run (initialState 3 2 False demoRandom) [StartClick (Some 1)] = Inr s
         \<and> snakes s \<noteq> [] \<and> \<not> userControlCheck s
         \<and> findIndex userControlled (snakes s) = None)
   \<and> (\<exists>s. run (initialState 3 1 False demoRandom) demoEvents = Inr s
         \<and> timerActive s \<and> snakes s \<noteq> []
         \<and> findIndex userControlled (snakes s) = None
         \<and> map body (snakes s) = [[(2, 0), (1, 0)]]
         \<and> movesLoop [0..<length (snakes s)] (s, False) = Inr (s, False)
         \<and> gameLoop s = Inr (s\<lparr>timerActive := False\<rparr>)
         \<and> handle s Tick = Inr (s\<lparr>timerActive := False\<rparr>))"
proof -
  have c: "\<not> userControlCheck trappedState" by (simp add: trappedState_def)
  have n: "findIndex userControlled (snakes trappedState) = None"
    by (simp add: trappedState_def)
  have g: "getNextDirection trappedState 0 = Inr None" by code_simp
  have sn: "snakes trappedState = [snakes trappedState ! 0]"
    by (simp add: trappedState_def)
  have nu: "\<not> userControlled (snakes trappedState ! 0)"
    by (simp add: trappedState_def)
  have b: "body (snakes trappedState ! 0) = (0, 0) # [(1, 0), (1, 1), (0, 1), (0, 2)]"
    by (simp add: trappedState_def)
  have r1: "1 < length (body (snakes trappedState ! 0))"
    "reverses (1, 0) (direction (snakes trappedState ! 0))"
    by (simp_all add: trappedState_def reverses_def)
  have r2: "fst ((0, 0)::cell) + fst ((- 1, 0)::cell) < 0" by simp
  have r3: "isCellOccupied (snakes trappedState) (fst ((0, 0)::cell) + fst ((0, 1)::cell))
        (snd ((0, 0)::cell) + snd ((0, 1)::cell)) (Some 0)"
    by code_simp
  have r4: "snd ((0, 0)::cell) + snd ((0, - 1)::cell) < 0" by simp
  have blk: "\<forall>e\<in>set [(1, 0), (- 1, 0), (0, 1), (0, - 1)].
         (1 < length (body (snakes trappedState ! 0))
            \<and> reverses e (direction (snakes trappedState ! 0)))
         \<or> fst ((0, 0)::cell) + fst e < 0
         \<or> gridWidth trappedState \<le> of_int (fst ((0, 0)::cell) + fst e)
         \<or> snd ((0, 0)::cell) + snd e < 0
         \<or> gridHeight trappedState \<le> of_int (snd ((0, 0)::cell) + snd e)
         \<or> isCellOccupied (snakes trappedState) (fst ((0, 0)::cell) + fst e)
              (snd ((0, 0)::cell) + snd e) (Some 0)"
    using r1 r2 r3 r4 by simp
  have m: "movesLoop [0..<length (snakes trappedState)] (trappedState, False)
        = Inr (trappedState, False)"
    using g by (simp add: trappedState_def moveSnake_def Let_def)
  note w = no_human_game_over [where s = trappedState and ?s1.0 = trappedState
      and anyMoved = False and sn = "snakes trappedState ! 0" and h = "(0, 0)"
      and rest = "[(1, 0), (1, 1), (0, 1), (0, 2)]"]
  from w [THEN conjunct1, THEN mp, OF conjI [OF c conjI [OF n m]]]
  have e1: "gameLoop trappedState = Inr (trappedState\<lparr>timerActive := False\<rparr>)" by simp
  then have e1': "handle trappedState Tick = Inr (trappedState\<lparr>timerActive := False\<rparr>)"
    by (simp add: trappedState_def)
  from w [THEN conjunct2, THEN conjunct1, THEN mp,
      OF conjI [OF c conjI [OF sn conjI [OF nu conjI [OF b blk]]]]]
  have e2: "gameLoop trappedState = Inr (trappedState\<lparr>timerActive := False\<rparr>)" .
  have c': "\<not> userControlCheck tieState" by (simp add: tieState_def)
  have n': "findIndex userControlled (snakes tieState) = None" by (simp add: tieState_def)
  have b': "map body (snakes tieState) = [[(0, 0)], [(2, 0)]]" by (simp add: tieState_def)
  have "case movesLoop [0..<length (snakes tieState)] (tieState, False) of
          Inl f \<Rightarrow> False
        | Inr sa \<Rightarrow> snd sa \<and> timerActive (fst sa)
            \<and> map body (snakes (fst sa)) = [[(1, 0)], [(2, 1)]]"
    by code_simp
  then obtain s1 where
    m': "movesLoop [0..<length (snakes tieState)] (tieState, False) = Inr (s1, True)"
    and t: "timerActive s1" and b1: "map body (snakes s1) = [[(1, 0)], [(2, 1)]]"
    by (cases "movesLoop [0..<length (snakes tieState)] (tieState, False)") auto
  from no_human_game_over [where s = tieState and ?s1.0 = s1 and anyMoved = True,
      THEN conjunct1, THEN mp, OF conjI [OF c' conjI [OF n' m']]]
  have e3: "gameLoop tieState = Inr s1" unfolding b1 b' by simp
  from m' b1 e3 t
  have tie: "\<exists>s1. movesLoop [0..<length (snakes tieState)] (tieState, False) = Inr (s1, True)
         \<and> map body (snakes s1) = [[(1, 0)], [(2, 1)]]
         \<and> gameLoop tieState = Inr s1 \<and> timerActive s1"
    by (intro exI [of _ s1]) simp
  from started_auto obtain s where
    r: "run (initialState 3 2 False demoRandom) [StartClick (Some 1)] = Inr s"
    and ne: "snakes s \<noteq> []" and nc: "\<not> userControlCheck s" by blast
  from no_human_game_over [where s = s and w = 3 and ht = 2 and c = False and r = demoRandom
      and evs = "[StartClick (Some 1)]", THEN conjunct2, THEN conjunct2, THEN conjunct1,
      THEN mp, OF r,
      THEN conjunct1, THEN mp, OF nc]
  have e4: "findIndex userControlled (snakes s) = None" .
  from r ne nc e4
  have started: "\<exists>s. run (initialState 3 2 False demoRandom) [StartClick (Some 1)] = Inr s
         \<and> snakes s \<noteq> [] \<and> \<not> userControlCheck s
         \<and> findIndex userControlled (snakes s) = None"
    by (intro exI [of _ s]) simp
  have "case run (initialState 3 1 False demoRandom) demoEvents of
          Inl f \<Rightarrow> False
        | Inr s \<Rightarrow> timerActive s \<and> snakes s \<noteq> []
            \<and> findIndex userControlled (snakes s) = None
            \<and> map body (snakes s) = [[(2, 0), (1, 0)]]
            \<and> (case movesLoop [0..<length (snakes s)] (s, False) of
                 Inl f \<Rightarrow> False | Inr sa \<Rightarrow> \<not> snd sa)"
    by code_simp
  then obtain s2 where dr: "run (initialState 3 1 False demoRandom) demoEvents = Inr s2"
    and dt: "timerActive s2" and dne: "snakes s2 \<noteq> []"
    and dnu: "findIndex userControlled (snakes s2) = None"
    and db: "map body (snakes s2) = [[(2, 0), (1, 0)]]"
    and dc: "case movesLoop [0..<length (snakes s2)] (s2, False) of
                 Inl f \<Rightarrow> False | Inr sa \<Rightarrow> \<not> snd sa"
    by (cases "run (initialState 3 1 False demoRandom) demoEvents") auto
  from dc obtain s3 where
    dn: "movesLoop [0..<length (snakes s2)] (s2, False) = Inr (s3, False)"
    by (cases "movesLoop [0..<length (snakes s2)] (s2, False)") auto
  from movesLoop_none_moved [OF dn] have "s3 = s2" by simp
  with dn have dm: "movesLoop [0..<length (snakes s2)] (s2, False) = Inr (s2, False)" by simp
  from no_human_game_over [where s = s2 and ?s1.0 = s2 and anyMoved = False and w = 3
      and ht = 1 and c = False and r = demoRandom and evs = demoEvents,
      THEN conjunct2, THEN conjunct2, THEN conjunct2, THEN mp,
      OF conjI [OF dr conjI [OF dne conjI [OF dnu dm]]]]
  have e5: "gameLoop s2 = Inr (s2\<lparr>timerActive := False\<rparr>)" by simp
  with dt have e6: "handle s2 Tick = Inr (s2\<lparr>timerActive := False\<rparr>)" by simp
  from dr dt dne dnu db dm e5 e6
  have over: "\<exists>s. run (initialState 3 1 False demoRandom) demoEvents = Inr s
         \<and> timerActive s \<and> snakes s \<noteq> []
         \<and> findIndex userControlled (snakes s) = None
         \<and> map body (snakes s) = [[(2, 0), (1, 0)]]
         \<and> movesLoop [0..<length (snakes s)] (s, False) = Inr (s, False)
         \<and> gameLoop s = Inr (s\<lparr>timerActive := False\<rparr>)
         \<and> handle s Tick = Inr (s\<lparr>timerActive := False\<rparr>)"
    by (intro exI [of _ s2]) simp
  show ?thesis
    by (intro conjI) (rule c n m sn nu b r1 r2 r3 r4 e2 e1' c' n' b' tie started over)+
qed

text \<open>
  Claim C9. With the checkbox checked, a tick after whose moves the user-controlled snake
  has a safe move leaves the timer as it was and resets the counter, whether or not any
  snake moved in the tick (\<open>anyMoved\<close> is arbitrary).
\<close>

theorem human_mode_ignores_idle_snakes:
  assumes "userControlCheck s"
    and "movesLoop [0..<length (snakes s)] (s, False) = Inr (s1, anyMoved)"
    and "findIndex userControlled (snakes s1) = Some u"
    and "body (snakes s1 ! u) = h # rest"
    and "safeMoves s1 u h \<noteq> []"
  shows "gameLoop s = Inr (s1\<lparr>userBlockedCounter := 0\<rparr>)
         \<and> timerActive (s1\<lparr>userBlockedCounter := 0\<rparr>) = timerActive s"
proof -
  note gl = movedOnly_globals [OF movesLoop_movedOnly [OF assms(2)]]
  from assms(1) gl(1) have "userControlCheck s1" by simp
  from gameOverCheck_free [OF this assms(3,4,5), of anyMoved] assms(2) gl(3)
  show ?thesis by (simp add: gameLoop_def)
qed

theorem human_mode_ignores_idle_snakes_witness:
  "userControlCheck idleState
   \<and> movesLoop [0..<length (snakes idleState)] (idleState, False) = Inr (idleState, False)
   \<and> findIndex userControlled (snakes idleState) = Some 0
   \<and> body (snakes idleState ! 0) = (0, 0) # []
   \<and> safeMoves idleState 0 (0, 0) = [(1, 0)]
   \<and> gameLoop idleState = Inr (idleState\<lparr>userBlockedCounter := 0\<rparr>)
   \<and> timerActive (idleState\<lparr>userBlockedCounter := 0\<rparr>) = timerActive idleState
   \<and> timerActive idleState"
proof -
  have c: "userControlCheck idleState" by (simp add: idleState_def)
  have g: "getNextDirection idleState 1 = Inr None" by code_simp
  have o: "outOfBounds idleState (- 1) 0" by (simp add: outOfBounds_def)
  have m: "movesLoop [0..<length (snakes idleState)] (idleState, False) = Inr (idleState, False)"
    using g o by (simp add: idleState_def moveSnake_def Let_def upt_rec)
  have u: "findIndex userControlled (snakes idleState) = Some 0" by (simp add: idleState_def)
  have b: "body (snakes idleState ! 0) = (0, 0) # []" by (simp add: idleState_def)
  have sf: "safeMoves idleState 0 (0, 0) = [(1, 0)]" by code_simp
  then have ne: "safeMoves idleState 0 (0, 0) \<noteq> []" by simp
  have t: "timerActive idleState" by (simp add: idleState_def)
  from human_mode_ignores_idle_snakes [OF c m u b ne] c m u b sf t show ?thesis by simp
qed

section \<open>Directions are never reversed\<close>

lemma movesLoop_append:
  "movesLoop (xs @ ys) sa =
     (case movesLoop xs sa of Inl e \<Rightarrow> Inl e | Inr sa' \<Rightarrow> movesLoop ys sa')"
  by (induction xs arbitrary: sa) (auto split: sum.splits)

text \<open>The loop over all snakes, cut at the turn of snake \<open>i\<close>.\<close>

lemma movesLoop_split:
  assumes m: "movesLoop [0..<n] (s, a) = Inr (sf, af)" and i: "i < n"
  obtains si ai si' ai' where
    "movesLoop [0..<i] (s, a) = Inr (si, ai)"
    "moveSnake i (si, ai) = Inr (si', ai')"
    "movesLoop [Suc i..<n] (si', ai') = Inr (sf, af)"
proof -
  from i have "[0..<i + (n - i)] = [0..<i] @ [i..<i + (n - i)]"
    by (intro upt_add_eq_append) simp
  with i have "[0..<n] = [0..<i] @ i # [Suc i..<n]"
    by (simp add: upt_conv_Cons)
  with m have "(case movesLoop [0..<i] (s, a) of Inl e \<Rightarrow> Inl e
         | Inr sa' \<Rightarrow> movesLoop (i # [Suc i..<n]) sa') = Inr (sf, af)"
    by (simp add: movesLoop_append)
  then obtain si ai where 1: "movesLoop [0..<i] (s, a) = Inr (si, ai)"
    and r: "movesLoop (i # [Suc i..<n]) (si, ai) = Inr (sf, af)"
    by (cases "movesLoop [0..<i] (s, a)") auto
  from r obtain si' ai' where 2: "moveSnake i (si, ai) = Inr (si', ai')"
    and 3: "movesLoop [Suc i..<n] (si', ai') = Inr (sf, af)"
    by (cases "moveSnake i (si, ai)") auto
  from 1 2 3 show ?thesis by (rule that)
qed


lemma movesLoop_turn:
  assumes m: "movesLoop [0..<n] (s, a) = Inr (sf, af)" and i: "i < n"
    and n: "n \<le> length (snakes s)"
  obtains si ai si' ai' where
    "movesLoop [0..<i] (s, a) = Inr (si, ai)"
    "moveSnake i (si, ai) = Inr (si', ai')"
    "movesLoop [Suc i..<n] (si', ai') = Inr (sf, af)"
    "length (snakes si) = length (snakes s)" "length (snakes sf) = length (snakes s)"
    "\<forall>k. i \<le> k \<and> k < length (snakes s) \<longrightarrow> snakes si ! k = snakes s ! k"
    "\<forall>k<i. snakes sf ! k = snakes si ! k"
    "snakes sf ! i = snakes si' ! i"
proof -
  from m i obtain si ai si' ai' where
    1: "movesLoop [0..<i] (s, a) = Inr (si, ai)" and
    2: "moveSnake i (si, ai) = Inr (si', ai')" and
    3: "movesLoop [Suc i..<n] (si', ai') = Inr (sf, af)"
    by (rule movesLoop_split)
  note m1 = movesLoop_movedOnly [OF 1]
  note m2 = moveSnake_movedOnly [OF 2]
  note m3 = movesLoop_movedOnly [OF 3]
  from m1 have l1: "length (snakes si) = length (snakes s)" by (simp add: movedOnly_def)
  from m2 have l2: "length (snakes si') = length (snakes si)" by (simp add: movedOnly_def)
  from m3 have l3: "length (snakes sf) = length (snakes si')" by (simp add: movedOnly_def)
  have a: "\<forall>k. i \<le> k \<and> k < length (snakes s) \<longrightarrow> snakes si ! k = snakes s ! k"
    using m1 by (simp add: movedOnly_def)
  have b: "\<forall>k<i. snakes sf ! k = snakes si ! k"
  proof (intro allI impI)
    fix k assume k: "k < i"
    with i n l1 l2 have kl: "k < length (snakes si)" "k < length (snakes si')" by simp_all
    from m2 k kl have "snakes si' ! k = snakes si ! k" by (simp add: movedOnly_def)
    moreover from m3 k kl have "snakes sf ! k = snakes si' ! k" by (simp add: movedOnly_def)
    ultimately show "snakes sf ! k = snakes si ! k" by simp
  qed
  have c: "snakes sf ! i = snakes si' ! i"
    using m3 i n l1 l2 by (simp add: movedOnly_def)
  from 1 2 3 l1 l3 l2 a b c show ?thesis by (intro that [of si ai si' ai']) simp_all
qed

lemma possibleDirections_no_reverse:
  "1 < length (body sn) \<Longrightarrow> d \<in> set (possibleDirections sn) \<Longrightarrow> \<not> reverses d (direction sn)"
  by (simp add: possibleDirections_def reverses_def)

lemma planner_no_reverse:
  assumes "1 < length (body (snakes s ! i))" "getNextDirection s i = Inr (Some d)"
  shows "\<not> reverses d (direction (snakes s ! i))"
proof -
  from getNextDirection_Some [OF assms(2)] obtain h rest where
    "d \<in> set (safeDirections s i h)" by blast
  from safeDirections_free [OF this] have "d \<in> set (possibleDirections (snakes s ! i))" by blast
  with assms(1) show ?thesis by (rule possibleDirections_no_reverse)
qed

lemma moveSnake_direction:
  assumes m: "moveSnake i (s, a) = Inr (s', a')" and i: "i < length (snakes s)"
    and l: "1 < length (body (snakes s ! i))"
  shows "direction (snakes s' ! i) = direction (snakes s ! i)
         \<or> \<not> reverses (direction (snakes s' ! i)) (direction (snakes s ! i))"
  using m
proof (cases rule: moveSnake_cases)
  case blocked
  then show ?thesis by simp
next
  case (user h rest)
  from commitMove_frame(2) [OF user(5)] obtain b where
    "snakes s' = (snakes s)[i := (snakes s ! i)\<lparr>body := b\<rparr>]" by blast
  with i show ?thesis by simp
next
  case (ai h rest d s1)
  from commitMove_frame(2) [OF ai(4)] obtain b where
    "snakes s1 = (snakes s)[i := (snakes s ! i)\<lparr>body := b\<rparr>]" by blast
  with i ai(5) have "direction (snakes s' ! i) = d" by simp
  with planner_no_reverse [OF l ai(3)] show ?thesis by simp
qed

lemma gameLoop_direction:
  assumes g: "gameLoop s = Inr s'" and i: "i < length (snakes s)"
    and l: "1 < length (body (snakes s ! i))"
  shows "direction (snakes s' ! i) = direction (snakes s ! i)
         \<or> \<not> reverses (direction (snakes s' ! i)) (direction (snakes s ! i))"
proof -
  from g obtain sf af where
    m: "movesLoop [0..<length (snakes s)] (s, False) = Inr (sf, af)"
    and c: "gameOverCheck (sf, af) = Inr s'"
    by (auto simp: gameLoop_def split: sum.splits)
  from m i obtain si ai si' ai' where
    t: "moveSnake i (si, ai) = Inr (si', ai')"
    "length (snakes si) = length (snakes s)"
    "\<forall>k. i \<le> k \<and> k < length (snakes s) \<longrightarrow> snakes si ! k = snakes s ! k"
    "snakes sf ! i = snakes si' ! i"
    by (rule movesLoop_turn) simp_all
  from t(3) i have e: "snakes si ! i = snakes s ! i" by simp
  from moveSnake_direction [OF t(1)] t(2) i l e
  have "direction (snakes si' ! i) = direction (snakes s ! i)
         \<or> \<not> reverses (direction (snakes si' ! i)) (direction (snakes s ! i))" by simp
  with t(4) gameOverCheck_control(1) [OF c] show ?thesis by simp
qed

lemma keydown_direction:
  assumes "findIndex userControlled (snakes s) = Some u" "keyDirection k = Some nd"
  shows "1 < length (body (snakes s ! u)) \<and> reverses (direction (snakes s ! u)) nd
           \<Longrightarrow> keydown k s = s"
    and "\<not> (1 < length (body (snakes s ! u)) \<and> reverses (direction (snakes s ! u)) nd)
           \<Longrightarrow> direction (snakes (keydown k s) ! u) = nd"
proof -
  from findIndex_Some [OF assms(1)] have u: "u < length (snakes s)" by simp
  show "1 < length (body (snakes s ! u)) \<and> reverses (direction (snakes s ! u)) nd
           \<Longrightarrow> keydown k s = s"
    using assms by (simp add: keydown_def Let_def reverses_def)
  show "\<not> (1 < length (body (snakes s ! u)) \<and> reverses (direction (snakes s ! u)) nd)
           \<Longrightarrow> direction (snakes (keydown k s) ! u) = nd"
    using assms u by (auto simp: keydown_def Let_def reverses_def)
qed

lemma reverses_sym: "reverses d e \<longleftrightarrow> reverses e d"
  by (auto simp: reverses_def)

lemma keydown_any_direction:
  assumes i: "i < length (snakes s)" and l: "1 < length (body (snakes s ! i))"
  shows "direction (snakes (keydown k s) ! i) = direction (snakes s ! i)
         \<or> \<not> reverses (direction (snakes (keydown k s) ! i)) (direction (snakes s ! i))"
proof (cases "findIndex userControlled (snakes s)")
  case None
  then show ?thesis by (simp add: keydown_def)
next
  case (Some u)
  show ?thesis
  proof (cases "keyDirection k")
    case None
    with Some show ?thesis by (simp add: keydown_def)
  next
    case nd: (Some nd)
    show ?thesis
    proof (cases "i = u")
      case False
      with Some nd show ?thesis by (auto simp: keydown_def Let_def)
    next
      case True
      show ?thesis
      proof (cases "reverses (direction (snakes s ! u)) nd")
        case r: True
        with keydown_direction(1) [OF Some nd] l True show ?thesis by simp
      next
        case r: False
        with keydown_direction(2) [OF Some nd]
        have "direction (snakes (keydown k s) ! u) = nd" by simp
        with r True show ?thesis by (simp add: reverses_sym)
      qed
    qed
  qed
qed

text \<open>
  Claim C7. For a snake of more than one segment the direction never becomes the exact
  reverse of what it was: the planner never returns the reverse of the snake's direction
  (it is filtered from the candidates), so after a tick the direction is unchanged or not
  the reverse; a key press leaves the direction unchanged or sets one that is not the
  reverse, and a key that asks for the exact reverse changes nothing at all. A snake of
  one segment takes any of the four directions from the keyboard, and all four are
  candidates for the planner.
\<close>

theorem direction_never_reversed:
  "(1 < length (body (snakes s ! i)) \<and> getNextDirection s i = Inr (Some d) \<longrightarrow>
      \<not> reverses d (direction (snakes s ! i)))
   \<and> (gameLoop s = Inr s' \<and> i < length (snakes s) \<and> 1 < length (body (snakes s ! i)) \<longrightarrow>
      direction (snakes s' ! i) = direction (snakes s ! i)
      \<or> \<not> reverses (direction (snakes s' ! i)) (direction (snakes s ! i)))
   \<and> (i < length (snakes s) \<and> 1 < length (body (snakes s ! i)) \<longrightarrow>
      direction (snakes (keydown k s) ! i) = direction (snakes s ! i)
      \<or> \<not> reverses (direction (snakes (keydown k s) ! i)) (direction (snakes s ! i)))
   \<and> (findIndex userControlled (snakes s) = Some u \<and> keyDirection k = Some nd
       \<and> 1 < length (body (snakes s ! u)) \<and> reverses (direction (snakes s ! u)) nd \<longrightarrow>
      keydown k s = s)
   \<and> (findIndex userControlled (snakes s) = Some u \<and> keyDirection k = Some nd
       \<and> length (body (snakes s ! u)) \<le> 1 \<longrightarrow>
      direction (snakes (keydown k s) ! u) = nd)
   \<and> (length (body sn) \<le> 1 \<longrightarrow> possibleDirections sn = allDirections)"
proof (intro conjI impI)
  assume "1 < length (body (snakes s ! i)) \<and> getNextDirection s i = Inr (Some d)"
  then show "\<not> reverses d (direction (snakes s ! i))" using planner_no_reverse by blast
next
  assume "gameLoop s = Inr s' \<and> i < length (snakes s) \<and> 1 < length (body (snakes s ! i))"
  then show "direction (snakes s' ! i) = direction (snakes s ! i)
      \<or> \<not> reverses (direction (snakes s' ! i)) (direction (snakes s ! i))"
    using gameLoop_direction by blast
next
  assume "i < length (snakes s) \<and> 1 < length (body (snakes s ! i))"
  then show "direction (snakes (keydown k s) ! i) = direction (snakes s ! i)
      \<or> \<not> reverses (direction (snakes (keydown k s) ! i)) (direction (snakes s ! i))"
    using keydown_any_direction by blast
next
  assume "findIndex userControlled (snakes s) = Some u \<and> keyDirection k = Some nd
       \<and> 1 < length (body (snakes s ! u)) \<and> reverses (direction (snakes s ! u)) nd"
  then show "keydown k s = s" using keydown_direction(1) by blast
next
  assume a: "findIndex userControlled (snakes s) = Some u \<and> keyDirection k = Some nd
       \<and> length (body (snakes s ! u)) \<le> 1"
  then have "\<not> (1 < length (body (snakes s ! u)) \<and> reverses (direction (snakes s ! u)) nd)"
    by simp
  with a show "direction (snakes (keydown k s) ! u) = nd" using keydown_direction(2) by blast
next
  assume "length (body sn) \<le> 1"
  then show "possibleDirections sn = allDirections" by (simp add: possibleDirections_def)
qed

theorem direction_never_reversed_witness:
  "1 < length (body (snakes (boxedState freedRandom) ! 1))
   \<and> getNextDirection (boxedState freedRandom) 1 = Inr (Some (- 1, 0))
   \<and> direction (snakes (boxedState freedRandom) ! 1) = (0, 1)
   \<and> \<not> reverses (- 1, 0) (direction (snakes (boxedState freedRandom) ! 1))
   \<and> (\<exists>s'. gameLoop (boxedState freedRandom) = Inr s' \<and> direction (snakes s' ! 1) = (- 1, 0)
         \<and> \<not> reverses (direction (snakes s' ! 1)) (direction (snakes (boxedState freedRandom) ! 1)))
   \<and> findIndex userControlled (snakes longUserState) = Some 0
   \<and> 1 < length (body (snakes longUserState ! 0))
   \<and> direction (snakes longUserState ! 0) = (1, 0)
   \<and> keyDirection ''ArrowLeft'' = Some (- 1, 0)
   \<and> reverses (direction (snakes longUserState ! 0)) (- 1, 0)
   \<and> keydown ''ArrowLeft'' longUserState = longUserState
   \<and> direction (snakes (keydown ''ArrowUp'' longUserState) ! 0) = (0, - 1)
   \<and> \<not> reverses (direction (snakes (keydown ''ArrowUp'' longUserState) ! 0))
          (direction (snakes longUserState ! 0))
   \<and> findIndex userControlled (snakes (boxedState freedRandom)) = Some 0
   \<and> length (body (snakes (boxedState freedRandom) ! 0)) \<le> 1
   \<and> direction (snakes (boxedState freedRandom) ! 0) = (- 1, 0)
   \<and> keyDirection ''ArrowRight'' = Some (1, 0)
   \<and> direction (snakes (keydown ''ArrowRight'' (boxedState freedRandom)) ! 0) = (1, 0)
   \<and> possibleDirections (snakes (boxedState freedRandom) ! 0) = allDirections"
proof -
  let ?b = "boxedState freedRandom"
  have l1: "1 < length (body (snakes ?b ! 1))" "1 < length (snakes ?b)"
    and d1: "direction (snakes ?b ! 1) = (0, 1)"
    by (simp_all add: boxedState_def)
  have g: "getNextDirection ?b 1 = Inr (Some (- 1, 0))" by code_simp
  from direction_never_reversed [where s = ?b and i = 1 and d = "(- 1, 0)"] l1 g
  have a: "\<not> reverses (- 1, 0) (direction (snakes ?b ! 1))" by blast
  have "case gameLoop ?b of Inl f \<Rightarrow> False | Inr s' \<Rightarrow> direction (snakes s' ! 1) = (- 1, 0)"
    by code_simp
  then obtain s' where t: "gameLoop ?b = Inr s'" "direction (snakes s' ! 1) = (- 1, 0)"
    by (cases "gameLoop ?b") auto
  from direction_never_reversed [where s = ?b and i = 1 and s' = s'] t l1 d1
  have b: "\<not> reverses (direction (snakes s' ! 1)) (direction (snakes ?b ! 1))" by auto
  have u: "findIndex userControlled (snakes longUserState) = Some 0"
    and l0: "1 < length (body (snakes longUserState ! 0))" "0 < length (snakes longUserState)"
    and d0: "direction (snakes longUserState ! 0) = (1, 0)"
    by (simp_all add: longUserState_def)
  have kl: "keyDirection ''ArrowLeft'' = Some (- 1, 0)" by (simp add: keyDirection_def)
  have r: "reverses (direction (snakes longUserState ! 0)) (- 1, 0)"
    by (simp add: d0 reverses_def)
  from direction_never_reversed [where s = longUserState and u = 0 and k = "''ArrowLeft''"
      and nd = "(- 1, 0)"] u kl l0 r
  have c: "keydown ''ArrowLeft'' longUserState = longUserState" by blast
  have ku: "direction (snakes (keydown ''ArrowUp'' longUserState) ! 0) = (0, - 1)" by code_simp
  from direction_never_reversed [where s = longUserState and i = 0 and k = "''ArrowUp''"] l0 ku d0
  have d: "\<not> reverses (direction (snakes (keydown ''ArrowUp'' longUserState) ! 0))
          (direction (snakes longUserState ! 0))" by auto
  have ub: "findIndex userControlled (snakes ?b) = Some 0"
    and lb: "length (body (snakes ?b ! 0)) \<le> 1"
    and db: "direction (snakes ?b ! 0) = (- 1, 0)"
    by (simp_all add: boxedState_def)
  have kr: "keyDirection ''ArrowRight'' = Some (1, 0)" by (simp add: keyDirection_def)
  from direction_never_reversed [where s = ?b and u = 0 and k = "''ArrowRight''"
      and nd = "(1, 0)"] ub kr lb
  have e: "direction (snakes (keydown ''ArrowRight'' ?b) ! 0) = (1, 0)" by blast
  from direction_never_reversed [where sn = "snakes ?b ! 0"] lb
  have f: "possibleDirections (snakes ?b ! 0) = allDirections" by blast
  from l1 g d1 a t b u l0 d0 kl r c ku d ub lb db kr e f show ?thesis by blast
qed

section \<open>Which layout the occupancy check reads\<close>

text \<open>
  Claim C2 says that every snake's occupancy check reads the layout from before the tick.
  It does not: in \<open>tieState\<close> snake 0 moves to (1, 0) first, and the check for snake 1
  then sees snake 0 there. On the layout from before the tick the planner would send
  snake 1 left to (1, 0); in the tick it sends it down, and snake 1 ends on (2, 1).
\<close>

theorem premove_layout_counterexample:
  "layoutSeenBy 1 tieState \<noteq> Inr (map body (snakes tieState))
   \<and> map body (snakes tieState) = [[(0, 0)], [(2, 0)]]
   \<and> layoutSeenBy 1 tieState = Inr [[(1, 0)], [(2, 0)]]
   \<and> getNextDirection tieState 1 = Inr (Some (- 1, 0))
   \<and> planSeenBy 1 tieState = Inr (Some (0, 1))
   \<and> layoutAfterTick tieState = Inr [[(1, 0)], [(2, 1)]]"
proof -
  have a: "map body (snakes tieState) = [[(0, 0)], [(2, 0)]]" by (simp add: tieState_def)
  have b: "layoutSeenBy 1 tieState = Inr [[(1, 0)], [(2, 0)]]" by code_simp
  have c: "getNextDirection tieState 1 = Inr (Some (- 1, 0))" by code_simp
  have d: "planSeenBy 1 tieState = Inr (Some (0, 1))" by code_simp
  have e: "layoutAfterTick tieState = Inr [[(1, 0)], [(2, 1)]]" by code_simp
  from a b have "layoutSeenBy 1 tieState \<noteq> Inr (map body (snakes tieState))" by simp
  with a b c d e show ?thesis by simp
qed

text \<open>
  Claim C2, as amended. In a tick the snakes move one after the other, and the occupancy
  check for snake \<open>i\<close> reads the layout of that moment: the snakes before \<open>i\<close> in the
  array are where they are at the end of this tick, snake \<open>i\<close> and the snakes after it
  are where they were before the tick.
\<close>

theorem occupancy_sees_earlier_moves:
  assumes g: "gameLoop s = Inr s'" and i: "i < length (snakes s)"
  shows "\<exists>si ai si' ai'.
       movesLoop [0..<i] (s, False) = Inr (si, ai)
     \<and> moveSnake i (si, ai) = Inr (si', ai')
     \<and> layoutSeenBy i s = Inr (map body (snakes si))
     \<and> planSeenBy i s = getNextDirection si i
     \<and> length (snakes si) = length (snakes s)
     \<and> (\<forall>k<i. body (snakes si ! k) = body (snakes s' ! k))
     \<and> (\<forall>k. i \<le> k \<and> k < length (snakes s) \<longrightarrow> body (snakes si ! k) = body (snakes s ! k))"
proof -
  from g obtain sf af where
    m: "movesLoop [0..<length (snakes s)] (s, False) = Inr (sf, af)"
    and c: "gameOverCheck (sf, af) = Inr s'"
    by (auto simp: gameLoop_def split: sum.splits)
  from m i obtain si ai si' ai' where
    t: "movesLoop [0..<i] (s, False) = Inr (si, ai)"
    "moveSnake i (si, ai) = Inr (si', ai')"
    "length (snakes si) = length (snakes s)"
    "\<forall>k. i \<le> k \<and> k < length (snakes s) \<longrightarrow> snakes si ! k = snakes s ! k"
    "\<forall>k<i. snakes sf ! k = snakes si ! k"
    by (rule movesLoop_turn) simp_all
  have sf: "snakes s' = snakes sf" using gameOverCheck_control(1) [OF c] .
  have 1: "layoutSeenBy i s = Inr (map body (snakes si))" by (simp add: layoutSeenBy_def t(1))
  have 2: "planSeenBy i s = getNextDirection si i" by (simp add: planSeenBy_def t(1))
  have 3: "\<forall>k<i. body (snakes si ! k) = body (snakes s' ! k)" using t(5) sf by simp
  have 4: "\<forall>k. i \<le> k \<and> k < length (snakes s) \<longrightarrow> body (snakes si ! k) = body (snakes s ! k)"
    using t(4) by simp
  from t(1,2,3) 1 2 3 4 show ?thesis by blast
qed

theorem occupancy_sees_earlier_moves_witness:
  "\<exists>s' si ai si' ai'. gameLoop tieState = Inr s' \<and> 1 < length (snakes tieState)
     \<and> map body (snakes s') = [[(1, 0)], [(2, 1)]]
     \<and> movesLoop [0..<1] (tieState, False) = Inr (si, ai)
     \<and> moveSnake 1 (si, ai) = Inr (si', ai')
     \<and> layoutSeenBy 1 tieState = Inr (map body (snakes si))
     \<and> map body (snakes si) = [[(1, 0)], [(2, 0)]]
     \<and> body (snakes si ! 0) = body (snakes s' ! 0)
     \<and> body (snakes si ! 1) = body (snakes tieState ! 1)"
proof -
  have "case gameLoop tieState of Inl f \<Rightarrow> False
        | Inr s' \<Rightarrow> map body (snakes s') = [[(1, 0)], [(2, 1)]]" by code_simp
  then obtain s' where g: "gameLoop tieState = Inr s'"
    and b: "map body (snakes s') = [[(1, 0)], [(2, 1)]]"
    by (cases "gameLoop tieState") auto
  have l: "1 < length (snakes tieState)" by (simp add: tieState_def)
  have seen: "layoutSeenBy 1 tieState = Inr [[(1, 0)], [(2, 0)]]" by code_simp
  from occupancy_sees_earlier_moves [OF g l] obtain si ai si' ai' where
    t: "movesLoop [0..<1] (tieState, False) = Inr (si, ai)"
    "moveSnake 1 (si, ai) = Inr (si', ai')"
    "layoutSeenBy 1 tieState = Inr (map body (snakes si))"
    "\<forall>k<1. body (snakes si ! k) = body (snakes s' ! k)"
    "\<forall>k. 1 \<le> k \<and> k < length (snakes tieState) \<longrightarrow> body (snakes si ! k) = body (snakes tieState ! k)"
    by blast
  from t(3) seen have m: "map body (snakes si) = [[(1, 0)], [(2, 0)]]" by simp
  from t(4) have k0: "body (snakes si ! 0) = body (snakes s' ! 0)" by simp
  from t(5) l have k1: "body (snakes si ! 1) = body (snakes tieState ! 1)" by simp
  from g l b t(1,2,3) m k0 k1 show ?thesis
    by (intro exI [of _ s'] exI [of _ si] exI [of _ ai] exI [of _ si'] exI [of _ ai']) simp
qed

section \<open>The requested number of snakes\<close>

text \<open>
  Claim C8 at the input -3. \<^verbatim>\<open>parseInt\<close> gives -3, which \<^verbatim>\<open>|| 1\<close> leaves as it is,
  and \<^verbatim>\<open>createSnakes(-3)\<close> creates no snake: the start handler returns with an
  empty array of snakes, the food placed and the timer running. Only 0 and
  \<^verbatim>\<open>NaN\<close> are replaced by 1.
\<close>

theorem negative_count_creates_no_snake:
  "requestedCount (Some (- 3)) = - 3
   \<and> startClick (Some (- 3)) s =
       Inr (s\<lparr>snakes := [], userBlockedCounter := 0, foodColor := ''yellow'',
              drawn := drawn s + 2,
              food := (\<lfloor>rnd s (drawn s) * gridWidth s\<rfloor>, \<lfloor>rnd s (drawn s + 1) * gridHeight s\<rfloor>),
              timerActive := True\<rparr>)
   \<and> requestedCount (Some 0) = 1 \<and> requestedCount None = 1"
proof -
  have r: "requestedCount (Some (- 3)) = - 3" "requestedCount (Some 0) = 1" "requestedCount None = 1"
    by (simp_all add: requestedCount_def)
  with startClick_minus_three [of s] show ?thesis by simp
qed
end
